theory Spec2Isabelle
  imports Complex_Main "HOL-Library.Char_ord" "HOL-Library.List_Lexorder" "HOL-Library.Multiset"
    "HOL-Library.Sublist"
begin

section \<open>Data model\<close>

text \<open>
  The struct \<^verbatim>\<open>author\<close> of \<^verbatim>\<open>authors.go\<close>. Go strings are byte sequences, so they are
  \<^typ>\<open>string\<close> (lists of 8-bit characters). The fields \<^verbatim>\<open>commits\<close> and \<^verbatim>\<open>geekrank\<close> are Go
  \<^verbatim>\<open>int\<close>; \<^verbatim>\<open>commits\<close> only ever grows by one per line of input held in memory, so it cannot
  reach the 64-bit limit and is an \<^typ>\<open>int\<close> here.
\<close>

record author =
  name :: string
  nickname :: string
  emails :: "string list"
  commits :: int
  geekrank :: int

text \<open>The zero value of the struct (\<^verbatim>\<open>var author author\<close>).\<close>

definition author_zero :: author where
  "author_zero = \<lparr>name = [], nickname = [], emails = [], commits = 0, geekrank = 0\<rparr>"

section \<open>Library functions on strings\<close>

text \<open>\<^verbatim>\<open>strings.HasPrefix\<close> and \<^verbatim>\<open>strings.Contains\<close>: a byte-wise substring test.\<close>

definition HasPrefix :: "string \<Rightarrow> string \<Rightarrow> bool" where
  "HasPrefix s p = (take (length p) s = p)"

fun Contains :: "string \<Rightarrow> string \<Rightarrow> bool" where
  "Contains [] sub = (sub = [])"
| "Contains (c # cs) sub = (HasPrefix (c # cs) sub \<or> Contains cs sub)"

text \<open>
  \<^verbatim>\<open>strings.Split(s, sep)\<close> and \<^verbatim>\<open>bytes.Split\<close> for a separator of one byte, the only use the
  program makes of them: \<open>n\<close> separators give \<open>n + 1\<close> pieces, so the empty input gives one
  empty piece.
\<close>

definition newline :: char where
  "newline = CHR 0x0A"

fun Split :: "string \<Rightarrow> char \<Rightarrow> string list" where
  "Split [] sep = [Nil]"
| "Split (c # cs) sep =
     (if c = sep then [] # Split cs sep
      else (case Split cs sep of [] \<Rightarrow> [c # Nil] | w # ws \<Rightarrow> (c # w) # ws))"

text \<open>
  \<^verbatim>\<open>strings.SplitN(s, sep, n)\<close> for a separator of one byte and \<open>n \<ge> 0\<close>: at most \<open>n\<close> pieces,
  the last one the unsplit rest.
\<close>

fun SplitN :: "string \<Rightarrow> char \<Rightarrow> nat \<Rightarrow> string list" where
  "SplitN s sep 0 = []"
| "SplitN s sep (Suc 0) = [s]"
| "SplitN s sep (Suc (Suc n)) =
     (if sep \<in> set s
      then takeWhile (\<lambda>c. c \<noteq> sep) s # SplitN (tl (dropWhile (\<lambda>c. c \<noteq> sep) s)) sep (Suc n)
      else [s])"

text \<open>\<^verbatim>\<open>strings.Join\<close>.\<close>

fun Join :: "string list \<Rightarrow> string \<Rightarrow> string" where
  "Join [] sep = []"
| "Join [x] sep = x"
| "Join (x # y # zs) sep = x @ sep @ Join (y # zs) sep"

text \<open>
  \<^verbatim>\<open>strings.Fields\<close> splits around runs of white space as \<^verbatim>\<open>unicode.IsSpace\<close> defines it. On
  the bytes of a Go string that is the six ASCII characters tab, line feed, vertical tab,
  form feed, carriage return and space, and the UTF-8 encodings of U+0085, U+00A0, U+1680,
  U+2000--U+200A, U+2028, U+2029, U+202F, U+205F and U+3000. \<open>space_width s\<close> is the number
  of bytes of the white-space rune \<open>s\<close> starts with, and 0 when it starts with none.
\<close>

definition ascii_space :: "char \<Rightarrow> bool" where
  "ascii_space c =
     (c = CHR 0x09 \<or> c = CHR 0x0A \<or> c = CHR 0x0B \<or> c = CHR 0x0C \<or> c = CHR 0x0D \<or> c = CHR 0x20)"

definition space_width :: "string \<Rightarrow> nat" where
  "space_width s =
     (case s of
        [] \<Rightarrow> 0
      | c # r \<Rightarrow>
          if ascii_space c then 1
          else if c = CHR 0xC2 then
            (case r of
               d # _ \<Rightarrow> if d = CHR 0x85 \<or> d = CHR 0xA0 then 2 else 0
             | [] \<Rightarrow> 0)
          else if c = CHR 0xE1 then (if take 2 r = [CHR 0x9A, CHR 0x80] then 3 else 0)
          else if c = CHR 0xE2 then
            (case r of
               d # e # _ \<Rightarrow>
                 if d = CHR 0x80 \<and>
                    ((CHR 0x80 \<le> e \<and> e \<le> CHR 0x8A) \<or> e = CHR 0xA8 \<or> e = CHR 0xA9 \<or> e = CHR 0xAF)
                 then 3
                 else if d = CHR 0x81 \<and> e = CHR 0x9F then 3 else 0
             | _ \<Rightarrow> 0)
          else if c = CHR 0xE3 then (if take 2 r = [CHR 0x80, CHR 0x80] then 3 else 0)
          else 0)"

text \<open>
  \<open>fields_from cur s\<close>: the fields of \<open>s\<close> when \<open>cur\<close> is the field read so far. A white-space
  rune ends the current field, if there is one, and is skipped whole.
\<close>

function fields_from :: "string \<Rightarrow> string \<Rightarrow> string list" where
  "fields_from cur [] = (if cur = [] then [] else [cur])"
| "fields_from cur (c # cs) =
     (if space_width (c # cs) = 0 then fields_from (cur @ [c]) cs
      else (if cur = [] then [] else [cur]) @ fields_from [] (drop (space_width (c # cs) - 1) cs))"
  by pat_completeness auto
termination
  by (relation "measure (\<lambda>(cur, s). length s)") auto

definition Fields :: "string \<Rightarrow> string list" where
  "Fields s = fields_from [] s"

text \<open>
  The two regular expressions, \<^verbatim>\<open>\(([^\s]*)\)\<close> and \<^verbatim>\<open><([^\s]*)>\<close>, run with
  \<^verbatim>\<open>FindStringSubmatch\<close>: the leftmost match, and at that place the longest run the greedy
  star can keep. The pattern is not anchored. \<^verbatim>\<open>\s\<close> is tab, line feed, form feed, carriage
  return and space. \<open>FindStringSubmatch opn cls s\<close> is \<open>Some\<close> of the group \<^verbatim>\<open>m[1]\<close> when the
  pattern with the delimiters \<open>opn\<close> and \<open>cls\<close> matches, and \<open>None\<close> when \<^verbatim>\<open>m\<close> is nil.
\<close>

definition regex_space :: "char \<Rightarrow> bool" where
  "regex_space c =
     (c = CHR 0x09 \<or> c = CHR 0x0A \<or> c = CHR 0x0C \<or> c = CHR 0x0D \<or> c = CHR 0x20)"

text \<open>
  The star first takes the whole run of non-space characters, then gives characters back
  until the closing delimiter follows: the group ends at the last closing delimiter of
  the run.
\<close>

definition group_upto :: "char \<Rightarrow> string \<Rightarrow> string option" where
  "group_upto cls run =
     (if cls \<in> set run then Some (rev (tl (dropWhile (\<lambda>c. c \<noteq> cls) (rev run)))) else None)"

fun FindStringSubmatch :: "char \<Rightarrow> char \<Rightarrow> string \<Rightarrow> string option" where
  "FindStringSubmatch opn cls [] = None"
| "FindStringSubmatch opn cls (c # cs) =
     (if c = opn then
        (case group_upto cls (takeWhile (\<lambda>x. \<not> regex_space x) cs) of
           Some g \<Rightarrow> Some g
         | None \<Rightarrow> FindStringSubmatch opn cls cs)
      else FindStringSubmatch opn cls cs)"

definition nicknameRe :: "string \<Rightarrow> string option" where
  "nicknameRe = FindStringSubmatch (CHR ''('') (CHR '')'')"

definition emailRe :: "string \<Rightarrow> string option" where
  "emailRe = FindStringSubmatch (CHR ''<'') (CHR ''>'')"

section \<open>The string set\<close>

definition add :: "string set \<Rightarrow> string \<Rightarrow> string set" where
  "add s e = insert e s"

definition has :: "string set \<Rightarrow> string \<Rightarrow> bool" where
  "has s e = (e \<in> s)"

definition stringSetFromStrings :: "string list \<Rightarrow> string set" where
  "stringSetFromStrings ss = foldl add {} ss"

section \<open>getAuthors: the roster parser\<close>

text \<open>
  The body of the loop over the fields of a line (lines 170--182). The argument of
  \<open>getAuthors\<close> is the content of the file; a file that cannot be read ends the program
  before any of this runs.
\<close>

definition parse_field :: "author \<Rightarrow> string \<Rightarrow> author" where
  "parse_field a field =
     (case nicknameRe field of
        Some m \<Rightarrow> a\<lparr>nickname := m\<rparr>
      | None \<Rightarrow>
          (case emailRe field of
             Some m \<Rightarrow> a\<lparr>emails := emails a @ [m]\<rparr>
           | None \<Rightarrow>
               if name a = [] then a\<lparr>name := field\<rparr>
               else a\<lparr>name := name a @ '' '' @ field\<rparr>))"

fun skipped :: "string \<Rightarrow> bool" where
  "skipped [] = True"
| "skipped (c # cs) = (c = CHR ''#'')"

definition parse_line :: "string \<Rightarrow> author" where
  "parse_line line = foldl parse_field author_zero (Fields line)"

definition getAuthors :: "string \<Rightarrow> author list" where
  "getAuthors bs = map parse_line (filter (\<lambda>line. \<not> skipped line) (Split bs newline))"

section \<open>The history backend\<close>

text \<open>
  A commit of the history is its hash, author email and author name. The two functions
  give what the two \<^verbatim>\<open>git log\<close> calls print for a history, newest commit first:
  \<^verbatim>\<open>--format=%H %ae %an\<close> ends every record with a line feed, \<^verbatim>\<open>--pretty=format:%ae\<close> puts a
  line feed between the records.
\<close>

type_synonym commit = "string \<times> string \<times> string"

definition record_line :: "commit \<Rightarrow> string" where
  "record_line c = (case c of (h, e, n) \<Rightarrow> h @ '' '' @ e @ '' '' @ n)"

definition git_log_H_ae_an :: "commit list \<Rightarrow> string" where
  "git_log_H_ae_an history = concat (map (\<lambda>c. record_line c @ [newline]) history)"

text \<open>
  A record is well formed when the backend can print it on one line and the program can
  split it again: no line feed in any part, no space in the hash or the email.
\<close>

definition well_formed :: "commit \<Rightarrow> bool" where
  "well_formed c =
     (case c of (h, e, n) \<Rightarrow>
        CHR '' '' \<notin> set h \<and> newline \<notin> set h \<and> CHR '' '' \<notin> set e \<and> newline \<notin> set e \<and>
        newline \<notin> set n)"

definition git_log_ae :: "commit list \<Rightarrow> string" where
  "git_log_ae history = Join (map (\<lambda>(h, e, n). e) history) [newline]"

section \<open>allAuthors\<close>

text \<open>
  Lines 244--261, on the output \<open>bs\<close> of the backend. Reading a missing key of a Go map
  gives the empty string, so \<^verbatim>\<open>names[email] == ""\<close> holds for a missing key and for a key
  stored with the empty name.
\<close>

definition allAuthors_line :: "string set \<Rightarrow> (string \<rightharpoonup> string) \<Rightarrow> string \<Rightarrow> (string \<rightharpoonup> string)" where
  "allAuthors_line exclude names line =
     (case SplitN line (CHR '' '') 3 of
        [hash, email, nm] \<Rightarrow>
          if has exclude hash then names
          else if (case names email of None \<Rightarrow> True | Some v \<Rightarrow> v = []) then names(email \<mapsto> nm)
          else names
      | _ \<Rightarrow> names)"

definition allAuthors :: "string set \<Rightarrow> string \<Rightarrow> (string \<rightharpoonup> string)" where
  "allAuthors exclude bs = foldl (allAuthors_line exclude) Map.empty (Split bs newline)"

section \<open>main: reconciliation\<close>

text \<open>Lines 69--74: the exclude set is the set of the lines of the file.\<close>

definition load_exclude :: "string \<Rightarrow> string set" where
  "load_exclude hashes = stringSetFromStrings (Split hashes newline)"

text \<open>Lines 83--90: the set of listed emails and the index from names to positions.\<close>

definition index_author :: "string set \<times> (string \<rightharpoonup> nat) \<Rightarrow> nat \<times> author \<Rightarrow> string set \<times> (string \<rightharpoonup> nat)" where
  "index_author st ia =
     (case st of (listed, names) \<Rightarrow> case ia of (i, a) \<Rightarrow>
        (foldl add listed (emails a), names(name a \<mapsto> i)))"

definition init_index :: "author list \<Rightarrow> string set \<times> (string \<rightharpoonup> nat)" where
  "init_index authors = foldl index_author ({}, Map.empty) (enumerate 0 authors)"

text \<open>
  Lines 95--113, the body of the loop over the map \<open>all\<close>. The state is \<open>listed\<close>, \<open>names\<close>
  and \<open>authors\<close>. Indexing \<^verbatim>\<open>authors[names[name]]\<close> out of range would panic: that is the
  result \<open>None\<close>.
\<close>

type_synonym main_state = "string set \<times> (string \<rightharpoonup> nat) \<times> author list"

definition reconcile_step :: "main_state \<Rightarrow> string \<times> string \<Rightarrow> main_state option" where
  "reconcile_step st kv =
     (case st of (listed, names, authors) \<Rightarrow> case kv of (email, nm) \<Rightarrow>
        if has listed email then Some (listed, names, authors)
        else if names nm \<noteq> None \<and> nm \<noteq> [] then
          (let k = the (names nm) in
           if k < length authors
           then Some (add listed email, names,
                  authors[k := (authors ! k)\<lparr>emails := emails (authors ! k) @ [email]\<rparr>])
           else None)
        else Some (add listed email, names(nm \<mapsto> length authors),
               authors @ [author_zero\<lparr>name := nm, emails := [email]\<rparr>]))"

fun reconcile_loop :: "main_state \<Rightarrow> (string \<times> string) list \<Rightarrow> main_state option" where
  "reconcile_loop st [] = Some st"
| "reconcile_loop st (kv # kvs) =
     (case reconcile_step st kv of None \<Rightarrow> None | Some st' \<Rightarrow> reconcile_loop st' kvs)"

text \<open>
  Go leaves the order in which \<^verbatim>\<open>range\<close> walks a map open; every entry comes once.
  \<open>range_order all kvs\<close>: the list \<open>kvs\<close> is one of the orders in which the loop can see the
  entries of \<open>all\<close>.
\<close>

definition range_order :: "(string \<rightharpoonup> string) \<Rightarrow> (string \<times> string) list \<Rightarrow> bool" where
  "range_order all kvs = (distinct (map fst kvs) \<and> map_of kvs = all)"

definition main_reconcile :: "author list \<Rightarrow> (string \<times> string) list \<Rightarrow> author list option" where
  "main_reconcile authors kvs =
     (case init_index authors of (listed, names) \<Rightarrow>
        map_option (\<lambda>st. snd (snd st)) (reconcile_loop (listed, names, authors) kvs))"

section \<open>getContributions\<close>

text \<open>Lines 215--220: the index from emails to positions; a later author overwrites.\<close>

definition emailIdx :: "author list \<Rightarrow> (string \<rightharpoonup> nat)" where
  "emailIdx authors =
     foldl (\<lambda>idx ia. case ia of (i, a) \<Rightarrow> foldl (\<lambda>idx email. idx(email \<mapsto> i)) idx (emails a))
       Map.empty (enumerate 0 authors)"

text \<open>
  Lines 222--226. The index was built from the same slice, so \<open>idx\<close> is a position of it.
\<close>

definition count_line :: "(string \<rightharpoonup> nat) \<Rightarrow> author list \<Rightarrow> string \<Rightarrow> author list" where
  "count_line idx authors line =
     (case idx line of
        Some i \<Rightarrow> authors[i := (authors ! i)\<lparr>commits := commits (authors ! i) + 1\<rparr>]
      | None \<Rightarrow> authors)"

text \<open>
  Lines 228--231 compute \<^verbatim>\<open>int(math.Log2(float64(commits)))\<close> in floating point; the function
  \<open>log2\<close> stands for that composition. \<open>out\<close> is what \<^verbatim>\<open>git log --pretty=format:%ae\<close> printed.
\<close>

definition getContributions :: "(int \<Rightarrow> int) \<Rightarrow> author list \<Rightarrow> string \<Rightarrow> author list" where
  "getContributions log2 authors out =
     map (\<lambda>a. a\<lparr>geekrank := log2 (commits a)\<rparr>)
       (foldl (count_line (emailIdx authors)) authors (Split out newline))"

text \<open>
  The computation of line 230, \<^verbatim>\<open>int(math.Log2(float64(commits)))\<close>. A float64 value is a finite
  real or one of three special values. \<^verbatim>\<open>float64(commits)\<close> is exact up to \<open>2 ^ 53\<close>; the theorems
  on the rank stay below that. \<^verbatim>\<open>math.Log2\<close> has the documented special cases: the logarithm
  of 0 is \<open>-Inf\<close>, of \<open>+Inf\<close> is \<open>+Inf\<close>, of a negative number and of \<open>NaN\<close> is \<open>NaN\<close>. On a positive
  finite argument it returns a float64 near the logarithm: that function is the parameter
  \<open>flog\<close>. The conversion to \<^verbatim>\<open>int\<close> cuts the fraction off when the result fits in 64 bits;
  for every other value Go leaves the result to the implementation: that is the parameter
  \<open>impl\<close>. The code has no branch for \<open>commits = 0\<close>.
\<close>

datatype float64 = Finite real | PosInf | NegInf | NaN

definition float64_of_int :: "int \<Rightarrow> float64" where
  "float64_of_int c = Finite (real_of_int c)"

definition math_Log2 :: "(real \<Rightarrow> real) \<Rightarrow> float64 \<Rightarrow> float64" where
  "math_Log2 flog x =
     (case x of
        Finite r \<Rightarrow> if r = 0 then NegInf else if r < 0 then NaN else Finite (flog r)
      | PosInf \<Rightarrow> PosInf
      | NegInf \<Rightarrow> NaN
      | NaN \<Rightarrow> NaN)"

definition trunc :: "real \<Rightarrow> int" where
  "trunc r = (if 0 \<le> r then \<lfloor>r\<rfloor> else \<lceil>r\<rceil>)"

definition int_of_float64 :: "(float64 \<Rightarrow> int) \<Rightarrow> float64 \<Rightarrow> int" where
  "int_of_float64 impl x =
     (case x of
        Finite r \<Rightarrow> if - (2 ^ 63) \<le> trunc r \<and> trunc r < 2 ^ 63 then trunc r else impl x
      | _ \<Rightarrow> impl x)"

definition geekrank_of :: "(real \<Rightarrow> real) \<Rightarrow> (float64 \<Rightarrow> int) \<Rightarrow> int \<Rightarrow> int" where
  "geekrank_of flog impl c = int_of_float64 impl (math_Log2 flog (float64_of_int c))"

text \<open>
  What the comparison of the rank with the exact logarithm asks of the library: it is
  exact on the powers of two, for which the library returns the exponent, and within
  \<open>1 / 2 ^ 47\<close> of the logarithm on the arguments from 1 to \<open>2 ^ 46\<close>. Above, the rounded
  logarithm of a number just below a power of two can reach the next integer.
\<close>

definition accurate_Log2 :: "(real \<Rightarrow> real) \<Rightarrow> bool" where
  "accurate_Log2 flog =
     ((\<forall>m::nat. flog (2 ^ m) = real m) \<and>
      (\<forall>x. 1 \<le> x \<and> x < 2 ^ 46 \<longrightarrow> \<bar>flog x - log 2 x\<bar> \<le> 1 / 2 ^ 47))"

text \<open>
  The conversion on amd64: its instruction gives the smallest \<^verbatim>\<open>int\<close> for every value that
  an \<^verbatim>\<open>int\<close> cannot hold.
\<close>

definition convert_amd64 :: "float64 \<Rightarrow> int" where
  "convert_amd64 x = - (2 ^ 63)"

text \<open>
  Lines 94--116 of main on a history: the authors are discovered from one call of the
  backend, reconciled, and counted from the other call. \<open>kvs\<close> is the sequence in which the
  loop of line 95 sees the entries of \<open>allAuthors exclude (git_log_H_ae_an history)\<close>; the
  exclude set reaches the run through it alone.
\<close>

definition main_counted ::
  "(int \<Rightarrow> int) \<Rightarrow> author list \<Rightarrow> commit list \<Rightarrow> (string \<times> string) list \<Rightarrow> author list option" where
  "main_counted log2 authors history kvs =
     map_option (\<lambda>as. getContributions log2 as (git_log_ae history)) (main_reconcile authors kvs)"

section \<open>The filter stage of main\<close>

text \<open>
  Lines 119--124: the loop removes \<^verbatim>\<open>authors[i]\<close> in place with
  \<^verbatim>\<open>append(authors[:i], authors[i+1:]...)\<close> and steps \<^verbatim>\<open>i\<close> back, so that the next round looks
  at the same index again. The index is only read when \<^verbatim>\<open>i < len(authors)\<close>.
\<close>

definition removed :: "string \<Rightarrow> int \<Rightarrow> author \<Rightarrow> bool" where
  "removed excludePattern minContributions a =
     (Contains (name a) excludePattern \<or> commits a < minContributions)"

function filter_loop :: "string \<Rightarrow> int \<Rightarrow> nat \<Rightarrow> author list \<Rightarrow> author list" where
  "filter_loop excludePattern minContributions i authors =
     (if i < length authors then
        (if removed excludePattern minContributions (authors ! i)
         then filter_loop excludePattern minContributions i (take i authors @ drop (Suc i) authors)
         else filter_loop excludePattern minContributions (Suc i) authors)
      else authors)"
  by pat_completeness auto
termination
  by (relation "measure (\<lambda>(p, m, i, authors). 2 * length authors - i)") auto

declare filter_loop.simps [simp del]

definition filter_stage :: "string \<Rightarrow> int \<Rightarrow> author list \<Rightarrow> author list" where
  "filter_stage excludePattern minContributions authors =
     filter_loop excludePattern minContributions 0 authors"

text \<open>
  The filter as the specification words it: a contributor is kept when its commits reach
  the minimum and its name does not contain the pattern; the result is the subsequence of
  the kept contributors.
\<close>

definition keep :: "string \<Rightarrow> int \<Rightarrow> author \<Rightarrow> bool" where
  "keep excludePattern minContributions a =
     (commits a \<ge> minContributions \<and> \<not> Contains (name a) excludePattern)"

definition pure_filter :: "string \<Rightarrow> int \<Rightarrow> author list \<Rightarrow> author list" where
  "pure_filter excludePattern minContributions authors =
     filter (keep excludePattern minContributions) authors"

section \<open>The sort stage of main\<close>

text \<open>
  \<^verbatim>\<open>byName.Less\<close> and \<^verbatim>\<open>byGeekrank.Less\<close>. Go compares strings byte by byte, which is the
  lexicographic order of \<^typ>\<open>string\<close>. \<^verbatim>\<open>strings.ToLower\<close> maps every Unicode letter and is not
  part of the program: it is the parameter \<open>ToLower\<close>.
\<close>

definition byName_Less :: "(string \<Rightarrow> string) \<Rightarrow> author \<Rightarrow> author \<Rightarrow> bool" where
  "byName_Less ToLower a b = (ToLower (name a) < ToLower (name b))"

definition byGeekrank_Less :: "author \<Rightarrow> author \<Rightarrow> bool" where
  "byGeekrank_Less a b = (geekrank a > geekrank b)"

text \<open>
  \<^verbatim>\<open>sort.Sort\<close> is the library's: it returns a permutation in which no element is \<open>Less\<close>
  than an earlier one, and promises no order among equal elements. \<open>sort_post\<close> is that
  contract. \<open>sort_Sort\<close> is the insertion sort the library runs on slices of at most 12
  elements: each element moves left while it is \<open>Less\<close> than its left neighbour; \<open>sift\<close> works
  on the prefix sorted so far, nearest element first. On longer slices the library may
  leave equal elements in another order; what is proved of the sort stage holds of every
  sequence that meets \<open>sort_post\<close>.
\<close>

definition sort_post :: "('a \<Rightarrow> 'a \<Rightarrow> bool) \<Rightarrow> 'a list \<Rightarrow> 'a list \<Rightarrow> bool" where
  "sort_post lt xs out =
     (mset out = mset xs \<and> (\<forall>j < length out. \<forall>i < j. \<not> lt (out ! j) (out ! i)))"

fun sift :: "('a \<Rightarrow> 'a \<Rightarrow> bool) \<Rightarrow> 'a \<Rightarrow> 'a list \<Rightarrow> 'a list" where
  "sift lt x [] = [x]"
| "sift lt x (y # ys) = (if lt x y then y # sift lt x ys else x # y # ys)"

definition sort_Sort :: "('a \<Rightarrow> 'a \<Rightarrow> bool) \<Rightarrow> 'a list \<Rightarrow> 'a list" where
  "sort_Sort lt xs = rev (foldl (\<lambda>acc x. sift lt x acc) [] xs)"

text \<open>Lines 127--130.\<close>

definition sort_stage :: "(string \<Rightarrow> string) \<Rightarrow> bool \<Rightarrow> author list \<Rightarrow> author list" where
  "sort_stage ToLower geekrank_flag authors =
     (let by_name = sort_Sort (byName_Less ToLower) authors
      in if geekrank_flag then sort_Sort byGeekrank_Less by_name else by_name)"

text \<open>
  Lower-casing of ASCII letters, where \<^verbatim>\<open>strings.ToLower\<close> is known without tables: it adds
  \<^verbatim>\<open>'a' - 'A'\<close>, that is 32, to the bytes \<^verbatim>\<open>'A'\<close> to \<^verbatim>\<open>'Z'\<close>, which sets their bit 5.
\<close>

definition lower_byte :: "char \<Rightarrow> char" where
  "lower_byte c =
     (if CHR ''A'' \<le> c \<and> c \<le> CHR ''Z''
      then (case c of Char b0 b1 b2 b3 b4 b5 b6 b7 \<Rightarrow> Char b0 b1 b2 b3 b4 True b6 b7)
      else c)"

definition ascii_lower :: "string \<Rightarrow> string" where
  "ascii_lower s = map lower_byte s"

section \<open>Notions of the specification\<close>

text \<open>The number of contributors whose \<open>emails\<close> hold \<open>e\<close>, and the uniqueness of emails.\<close>

definition owner_count :: "author list \<Rightarrow> string \<Rightarrow> nat" where
  "owner_count authors e = length (filter (\<lambda>a. e \<in> set (emails a)) authors)"

definition email_unique :: "author list \<Rightarrow> bool" where
  "email_unique authors =
     (\<forall>e \<in> set (concat (map emails authors)). owner_count authors e = 1)"

text \<open>
  The name of the first record of the history that bears the email \<open>e\<close>, and the name the
  loop of \<open>allAuthors\<close> settles on: the first non-empty name among the records that bear
  \<open>e\<close>, the empty name when they all have it, nothing when there is no such record.
\<close>

definition first_name :: "commit list \<Rightarrow> string \<Rightarrow> string option" where
  "first_name history e =
     map_option (\<lambda>c. snd (snd c)) (find (\<lambda>c. fst (snd c) = e) history)"

definition first_nonempty_name :: "commit list \<Rightarrow> string \<Rightarrow> string option" where
  "first_nonempty_name history e =
     (let bearing = filter (\<lambda>c. fst (snd c) = e) history
      in case find (\<lambda>c. snd (snd c) \<noteq> []) bearing of
           Some c \<Rightarrow> Some (snd (snd c))
         | None \<Rightarrow> if bearing = [] then None else Some [])"

text \<open>
  \<open>settle now later\<close>: the entry of an email when the map holds \<open>now\<close> for it and the records
  still to come would give \<open>later\<close> from the empty map.
\<close>

fun settle :: "string option \<Rightarrow> string option \<Rightarrow> string option" where
  "settle None later = later"
| "settle (Some v) later = (if v = [] then (case later of None \<Rightarrow> Some [] | Some w \<Rightarrow> Some w) else Some v)"

text \<open>
  The rank of the specification, \<open>floor (log2 commits)\<close>, in exact arithmetic; it is 0 for
  \<open>commits \<le> 1\<close>. It is used where a run of the program needs a concrete function for the
  floating-point computation.
\<close>

fun log2_nat :: "nat \<Rightarrow> nat" where
  "log2_nat n = (if n < 2 then 0 else Suc (log2_nat (n div 2)))"

declare log2_nat.simps [simp del]

definition floor_log2 :: "int \<Rightarrow> int" where
  "floor_log2 c = int (log2_nat (nat c))"

text \<open>The number of commits of the history with the email \<open>e\<close> that are not excluded.\<close>

definition non_excluded_commits :: "string set \<Rightarrow> commit list \<Rightarrow> string \<Rightarrow> nat" where
  "non_excluded_commits exclude history e =
     length (filter (\<lambda>c. fst c \<notin> exclude \<and> fst (snd c) = e) history)"

text \<open>
  The three ways the loop body of \<open>getAuthors\<close> treats a field, in the order of its tests,
  and the fields of each kind on a line. \<open>has_pair opn cls f\<close>: the field holds \<open>opn\<close> and,
  somewhere after it, \<open>cls\<close>. \<open>enclosed opn cls f\<close>: the field starts with \<open>opn\<close> and ends with
  \<open>cls\<close>.
\<close>

datatype field_class = Nickname string | Email string | NamePart

definition classify :: "string \<Rightarrow> field_class" where
  "classify field =
     (case nicknameRe field of
        Some m \<Rightarrow> Nickname m
      | None \<Rightarrow> (case emailRe field of Some m \<Rightarrow> Email m | None \<Rightarrow> NamePart))"

definition has_pair :: "char \<Rightarrow> char \<Rightarrow> string \<Rightarrow> bool" where
  "has_pair opn cls f = (\<exists>pre g post. f = pre @ opn # g @ cls # post)"

definition enclosed :: "char \<Rightarrow> char \<Rightarrow> string \<Rightarrow> bool" where
  "enclosed opn cls f = (2 \<le> length f \<and> hd f = opn \<and> last f = cls)"

definition nicknames :: "string list \<Rightarrow> string list" where
  "nicknames fs = concat (map (\<lambda>f. case classify f of Nickname m \<Rightarrow> [m] | _ \<Rightarrow> []) fs)"

definition email_fields :: "string list \<Rightarrow> string list" where
  "email_fields fs = concat (map (\<lambda>f. case classify f of Email m \<Rightarrow> [m] | _ \<Rightarrow> []) fs)"

definition name_fields :: "string list \<Rightarrow> string list" where
  "name_fields fs = filter (\<lambda>f. classify f = NamePart) fs"

section \<open>Invariants of the reconciliation loop\<close>

text \<open>
  \<open>names_ok\<close>: every entry of the name index points at a contributor of that name.
  \<open>state_ok\<close>: moreover \<open>listed\<close> is the set of the emails of the contributors.
  \<open>extends\<close>: what a run of the loop may change.
\<close>

definition names_ok :: "(string \<rightharpoonup> nat) \<Rightarrow> author list \<Rightarrow> bool" where
  "names_ok names authors =
     (\<forall>nm k. names nm = Some k \<longrightarrow> k < length authors \<and> name (authors ! k) = nm)"

definition state_ok :: "main_state \<Rightarrow> bool" where
  "state_ok st =
     (case st of (listed, names, authors) \<Rightarrow>
        listed = set (concat (map emails authors)) \<and> names_ok names authors)"

definition extends :: "main_state \<Rightarrow> main_state \<Rightarrow> bool" where
  "extends st st' =
     (case st of (listed, names, authors) \<Rightarrow> case st' of (listed', names', authors') \<Rightarrow>
        listed \<subseteq> listed' \<and>
        length authors \<le> length authors' \<and>
        (\<forall>i < length authors.
           name (authors' ! i) = name (authors ! i) \<and>
           prefix (emails (authors ! i)) (emails (authors' ! i))) \<and>
        (\<forall>nm k. nm \<noteq> [] \<and> names nm = Some k \<longrightarrow> names' nm = Some k) \<and>
        (\<forall>e \<in> listed. owner_count authors' e = owner_count authors e))"


section \<open>Properties of the substring test\<close>

lemma HasPrefix_iff: "HasPrefix s p \<longleftrightarrow> (\<exists>ys. s = p @ ys)"
  unfolding HasPrefix_def
  by (metis append_eq_conv_conj append_take_drop_id)

lemma Contains_iff: "Contains s sub \<longleftrightarrow> (\<exists>xs ys. s = xs @ sub @ ys)"
proof (induction s)
  case Nil
  show ?case by auto
next
  case (Cons c cs)
  show ?case
  proof
    assume "Contains (c # cs) sub"
    then consider "HasPrefix (c # cs) sub" | "Contains cs sub" by auto
    then show "\<exists>xs ys. c # cs = xs @ sub @ ys"
    proof cases
      case 1
      then obtain ys where "c # cs = sub @ ys" by (auto simp: HasPrefix_iff)
      then have "c # cs = [] @ sub @ ys" by simp
      then show ?thesis by blast
    next
      case 2
      then obtain xs ys where "cs = xs @ sub @ ys" using Cons.IH by blast
      then have "c # cs = (c # xs) @ sub @ ys" by simp
      then show ?thesis by blast
    qed
  next
    assume "\<exists>xs ys. c # cs = xs @ sub @ ys"
    then obtain xs ys where e: "c # cs = xs @ sub @ ys" by blast
    show "Contains (c # cs) sub"
    proof (cases xs)
      case Nil
      with e have "HasPrefix (c # cs) sub" by (auto simp: HasPrefix_iff)
      then show ?thesis by simp
    next
      case (Cons x xs')
      with e have "cs = xs' @ sub @ ys" by simp
      then have "Contains cs sub" using Cons.IH by blast
      then show ?thesis by simp
    qed
  qed
qed

section \<open>The filter loop is a filter\<close>

lemma keep_not_removed: "keep p m a \<longleftrightarrow> \<not> removed p m a"
  by (auto simp: keep_def removed_def)

lemma filter_loop_eq:
  "i \<le> length authors \<Longrightarrow>
   filter_loop p m i authors = take i authors @ filter (keep p m) (drop i authors)"
proof (induction p m i authors rule: filter_loop.induct)
  case (1 p m i authors)
  show ?case
  proof (cases "i < length authors")
    case False
    with "1.prems" show ?thesis by (subst filter_loop.simps) simp
  next
    case inb: True
    then have d: "drop i authors = authors ! i # drop (Suc i) authors"
      by (simp add: Cons_nth_drop_Suc)
    show ?thesis
    proof (cases "removed p m (authors ! i)")
      case True
      let ?as = "take i authors @ drop (Suc i) authors"
      have k: "\<not> keep p m (authors ! i)"
        using True by (simp add: keep_not_removed)
      have "filter_loop p m i authors = filter_loop p m i ?as"
        using inb True by (subst filter_loop.simps) simp
      also have "\<dots> = take i ?as @ filter (keep p m) (drop i ?as)"
        using "1.IH"(1) [OF inb True] inb by simp
      also have "\<dots> = take i authors @ filter (keep p m) (drop (Suc i) authors)"
        using inb by simp
      finally show ?thesis using k d by simp
    next
      case False
      have k: "keep p m (authors ! i)"
        using False by (simp add: keep_not_removed)
      have "filter_loop p m i authors = filter_loop p m (Suc i) authors"
        using inb False by (subst filter_loop.simps) simp
      also have "\<dots> = take (Suc i) authors @ filter (keep p m) (drop (Suc i) authors)"
        using "1.IH"(2) [OF inb False] inb by simp
      finally show ?thesis
        using k d inb by (simp add: take_Suc_conv_app_nth)
    qed
  qed
qed

lemma filter_stage_filter:
  "filter_stage p m authors = filter (keep p m) authors"
  unfolding filter_stage_def by (simp add: filter_loop_eq)

text \<open>
  Claim C10. The in-place remove-while-scanning loop of the filter stage computes the pure
  filter: for every author list, minimum and pattern its result is exactly the subsequence
  of the authors with \<open>commits \<ge> min\<close> whose name does not contain the pattern, in their
  original order and with their fields as they were.
\<close>

theorem filter_stage_refines_pure_filter:
  "filter_stage excludePattern minContributions authors =
   pure_filter excludePattern minContributions authors"
  unfolding pure_filter_def by (rule filter_stage_filter)

text \<open>
  Claim C7. After the filter stage every remaining contributor has \<open>commits \<ge> min\<close> and a
  name that does not contain the exclude pattern, and every contributor of the input that
  violates one of the two conditions is gone.
\<close>

theorem filter_stage_correct:
  "(\<forall>a \<in> set (filter_stage excludePattern minContributions authors).
      commits a \<ge> minContributions \<and> \<not> Contains (name a) excludePattern) \<and>
   (\<forall>a \<in> set authors.
      (commits a < minContributions \<or> Contains (name a) excludePattern) \<longrightarrow>
      a \<notin> set (filter_stage excludePattern minContributions authors))"
  by (auto simp: filter_stage_filter keep_def)

theorem filter_stage_correct_witness:
  "filter_stage ''[bot]'' 1
     [author_zero\<lparr>name := ''Alice'', commits := 3\<rparr>,
      author_zero\<lparr>name := ''dep[bot]'', commits := 10\<rparr>,
      author_zero\<lparr>name := ''Carol''\<rparr>]
   = [author_zero\<lparr>name := ''Alice'', commits := 3\<rparr>] \<and>
   commits (author_zero\<lparr>name := ''Alice'', commits := 3\<rparr>) \<ge> 1 \<and>
   \<not> Contains (name (author_zero\<lparr>name := ''Alice'', commits := 3\<rparr>)) ''[bot]'' \<and>
   Contains (name (author_zero\<lparr>name := ''dep[bot]'', commits := 10\<rparr>)) ''[bot]'' \<and>
   author_zero\<lparr>name := ''dep[bot]'', commits := 10\<rparr> \<notin> set (filter_stage ''[bot]'' 1
     [author_zero\<lparr>name := ''Alice'', commits := 3\<rparr>,
      author_zero\<lparr>name := ''dep[bot]'', commits := 10\<rparr>,
      author_zero\<lparr>name := ''Carol''\<rparr>]) \<and>
   commits (author_zero\<lparr>name := ''Carol''\<rparr>) < 1 \<and>
   author_zero\<lparr>name := ''Carol''\<rparr> \<notin> set (filter_stage ''[bot]'' 1
     [author_zero\<lparr>name := ''Alice'', commits := 3\<rparr>,
      author_zero\<lparr>name := ''dep[bot]'', commits := 10\<rparr>,
      author_zero\<lparr>name := ''Carol''\<rparr>])"
proof -
  have ev: "filter_stage ''[bot]'' 1
     [author_zero\<lparr>name := ''Alice'', commits := 3\<rparr>,
      author_zero\<lparr>name := ''dep[bot]'', commits := 10\<rparr>,
      author_zero\<lparr>name := ''Carol''\<rparr>]
   = [author_zero\<lparr>name := ''Alice'', commits := 3\<rparr>]"
    by (simp add: filter_stage_def filter_loop.simps removed_def HasPrefix_def author_zero_def)
  have c: "Contains (name (author_zero\<lparr>name := ''dep[bot]'', commits := 10\<rparr>)) ''[bot]''"
    by (simp add: HasPrefix_def)
  have z: "commits (author_zero\<lparr>name := ''Carol''\<rparr>) < 1"
    by (simp add: author_zero_def)
  show ?thesis
    using ev c z filter_stage_correct [of "''[bot]''" 1
     "[author_zero\<lparr>name := ''Alice'', commits := 3\<rparr>,
      author_zero\<lparr>name := ''dep[bot]'', commits := 10\<rparr>,
      author_zero\<lparr>name := ''Carol''\<rparr>]"]
    by (simp del: Contains.simps)
qed

section \<open>Reconciliation\<close>

lemma foldl_add: "foldl add L es = L \<union> set es"
  by (induction es arbitrary: L) (auto simp: add_def)

lemma init_index_Nil: "init_index [] = ({}, Map.empty)"
  by (simp add: init_index_def)

lemma init_index_snoc:
  "init_index (as @ [a]) = index_author (init_index as) (length as, a)"
  by (simp add: init_index_def enumerate_append_eq)

lemma init_listed: "fst (init_index as) = set (concat (map emails as))"
  by (induction as rule: rev_induct)
     (auto simp: init_index_Nil init_index_snoc index_author_def foldl_add split: prod.splits)

lemma init_names_ok: "names_ok (snd (init_index as)) as"
proof (induction as rule: rev_induct)
  case Nil
  show ?case by (simp add: init_index_Nil names_ok_def)
next
  case (snoc a as)
  then show ?case
    by (auto simp: init_index_snoc index_author_def names_ok_def nth_append
             split: prod.splits if_splits)
qed




lemma init_state_ok: "state_ok (fst (init_index as), snd (init_index as), as)"
  by (simp add: state_ok_def init_listed init_names_ok)

lemma owner_count_append:
  "owner_count (A @ B) e = owner_count A e + owner_count B e"
  by (simp add: owner_count_def)

lemma owner_count_single:
  "owner_count [a] e = (if e \<in> set (emails a) then 1 else 0)"
  by (simp add: owner_count_def)

lemma owner_count_zero:
  "owner_count A e = 0 \<longleftrightarrow> e \<notin> set (concat (map emails A))"
  by (auto simp: owner_count_def filter_empty_conv)

lemma take_nth_drop: "k < length A \<Longrightarrow> take k A @ [A ! k] @ drop (Suc k) A = A"
  by (simp add: id_take_nth_drop [symmetric])

lemma owner_count_split:
  assumes "k < length A"
  shows "owner_count A e =
      owner_count (take k A) e + owner_count [A ! k] e + owner_count (drop (Suc k) A) e"
proof -
  have "owner_count (take k A @ [A ! k] @ drop (Suc k) A) e =
      owner_count (take k A) e + owner_count [A ! k] e + owner_count (drop (Suc k) A) e"
    by (simp only: owner_count_append add.assoc)
  then show ?thesis by (simp only: take_nth_drop [OF assms])
qed

lemma owner_count_update:
  assumes "k < length A"
  shows "owner_count (A[k := x]) e + owner_count [A ! k] e = owner_count A e + owner_count [x] e"
proof -
  have "A[k := x] = take k A @ [x] @ drop (Suc k) A"
    using assms by (simp add: upd_conv_take_nth_drop)
  then have "owner_count (A[k := x]) e =
      owner_count (take k A) e + owner_count [x] e + owner_count (drop (Suc k) A) e"
    by (simp only: owner_count_append add.assoc)
  with owner_count_split [OF assms, of e] show ?thesis by simp
qed

lemma emails_update:
  assumes "k < length A"
  shows "set (concat (map emails (A[k := (A ! k)\<lparr>emails := emails (A ! k) @ [e]\<rparr>])))
         = insert e (set (concat (map emails A)))"
proof -
  let ?x = "(A ! k)\<lparr>emails := emails (A ! k) @ [e]\<rparr>"
  let ?P = "take k A" and ?S = "drop (Suc k) A"
  have u: "A[k := ?x] = ?P @ [?x] @ ?S"
    using assms by (simp add: upd_conv_take_nth_drop)
  have "set (concat (map emails (A[k := ?x])))
        = insert e (set (concat (map emails (?P @ [A ! k] @ ?S))))"
    unfolding u by auto
  then show ?thesis by (simp only: take_nth_drop [OF assms])
qed

lemma step_listed:
  "e \<in> L \<Longrightarrow> reconcile_step (L, N, A) (e, nm) = Some (L, N, A)"
  by (simp add: reconcile_step_def has_def)

lemma step_merge:
  "e \<notin> L \<Longrightarrow> N nm = Some k \<Longrightarrow> nm \<noteq> [] \<Longrightarrow> k < length A \<Longrightarrow>
   reconcile_step (L, N, A) (e, nm) =
     Some (insert e L, N, A[k := (A ! k)\<lparr>emails := emails (A ! k) @ [e]\<rparr>])"
  by (simp add: reconcile_step_def has_def add_def)

lemma step_new:
  "e \<notin> L \<Longrightarrow> N nm = None \<or> nm = [] \<Longrightarrow>
   reconcile_step (L, N, A) (e, nm) =
     Some (insert e L, N(nm \<mapsto> length A), A @ [author_zero\<lparr>name := nm, emails := [e]\<rparr>])"
  by (auto simp: reconcile_step_def has_def add_def)

lemma extends_refl: "extends st st"
  by (auto simp: extends_def split: prod.splits)

lemma extends_trans:
  assumes "extends st1 st2" and "extends st2 st3"
  shows "extends st1 st3"
proof -
  obtain L1 N1 A1 where s1: "st1 = (L1, N1, A1)" by (cases st1) auto
  obtain L2 N2 A2 where s2: "st2 = (L2, N2, A2)" by (cases st2) auto
  obtain L3 N3 A3 where s3: "st3 = (L3, N3, A3)" by (cases st3) auto
  from assms have
    a: "L1 \<subseteq> L2" "length A1 \<le> length A2"
       "\<And>i. i < length A1 \<Longrightarrow> name (A2 ! i) = name (A1 ! i)"
       "\<And>i. i < length A1 \<Longrightarrow> prefix (emails (A1 ! i)) (emails (A2 ! i))"
       "\<And>nm k. nm \<noteq> [] \<Longrightarrow> N1 nm = Some k \<Longrightarrow> N2 nm = Some k"
       "\<And>e. e \<in> L1 \<Longrightarrow> owner_count A2 e = owner_count A1 e"
    and
    b: "L2 \<subseteq> L3" "length A2 \<le> length A3"
       "\<And>i. i < length A2 \<Longrightarrow> name (A3 ! i) = name (A2 ! i)"
       "\<And>i. i < length A2 \<Longrightarrow> prefix (emails (A2 ! i)) (emails (A3 ! i))"
       "\<And>nm k. nm \<noteq> [] \<Longrightarrow> N2 nm = Some k \<Longrightarrow> N3 nm = Some k"
       "\<And>e. e \<in> L2 \<Longrightarrow> owner_count A3 e = owner_count A2 e"
    unfolding s1 s2 s3 extends_def by auto
  have "L1 \<subseteq> L3" using a(1) b(1) by blast
  moreover have "length A1 \<le> length A3" using a(2) b(2) by simp
  moreover have "name (A3 ! i) = name (A1 ! i)" if "i < length A1" for i
    using that a(2) a(3) b(3) by simp
  moreover have "prefix (emails (A1 ! i)) (emails (A3 ! i))" if "i < length A1" for i
  proof -
    from that a(2) have "i < length A2" by simp
    from a(4) [OF that] b(4) [OF this] show ?thesis by (rule prefix_order.trans)
  qed
  moreover have "N3 nm = Some k" if "nm \<noteq> []" "N1 nm = Some k" for nm k
    using that a(5) b(5) by blast
  moreover have "owner_count A3 e = owner_count A1 e" if "e \<in> L1" for e
    using that a(1) a(6) b(6) by (metis subsetD)
  ultimately show ?thesis
    unfolding s1 s3 extends_def by simp
qed

lemma step_props:
  assumes ok: "state_ok (L, N, A)"
  shows "\<exists>L' N' A'. reconcile_step (L, N, A) (e, nm) = Some (L', N', A') \<and>
           state_ok (L', N', A') \<and> extends (L, N, A) (L', N', A') \<and>
           L' = insert e L \<and> (e \<notin> L \<longrightarrow> owner_count A' e = 1)"
proof -
  from ok have L: "L = set (concat (map emails A))" and nok: "names_ok N A"
    by (auto simp: state_ok_def)
  consider (listed) "e \<in> L"
    | (merge) k where "e \<notin> L" "N nm = Some k" "nm \<noteq> []"
    | (new) "e \<notin> L" "N nm = None \<or> nm = []"
    by (cases "N nm") auto
  then show ?thesis
  proof cases
    case listed
    then have "reconcile_step (L, N, A) (e, nm) = Some (L, N, A)" by (rule step_listed)
    moreover have "insert e L = L" using listed by auto
    ultimately show ?thesis using ok extends_refl by auto
  next
    case merge
    from nok merge(2) have k: "k < length A" and nk: "name (A ! k) = nm"
      by (auto simp: names_ok_def)
    let ?x = "(A ! k)\<lparr>emails := emails (A ! k) @ [e]\<rparr>"
    let ?A = "A[k := ?x]"
    have st: "reconcile_step (L, N, A) (e, nm) = Some (insert e L, N, ?A)"
      using merge k by (simp add: step_merge)
    have L': "insert e L = set (concat (map emails ?A))"
      using emails_update [OF k] L by simp
    have nm': "name (?A ! i) = name (A ! i)" if "i < length A" for i
      using that by (cases "i = k") auto
    have pre: "prefix (emails (A ! i)) (emails (?A ! i))" if "i < length A" for i
      using that by (cases "i = k") auto
    have nok': "names_ok N ?A"
      using nok nm' by (auto simp: names_ok_def)
    have ek: "e \<notin> set (emails (A ! k))"
      using merge(1) k L by auto
    have oc: "owner_count ?A e' + owner_count [A ! k] e' = owner_count A e' + owner_count [?x] e'"
      for e' by (rule owner_count_update [OF k])
    have keep: "owner_count ?A e' = owner_count A e'" if "e' \<in> L" for e'
    proof -
      from that merge(1) have "e' \<noteq> e" by auto
      then have "owner_count [?x] e' = owner_count [A ! k] e'"
        by (simp add: owner_count_single)
      with oc [of e'] show ?thesis by simp
    qed
    have one: "owner_count ?A e = 1"
    proof -
      have "owner_count A e = 0" using merge(1) L by (simp add: owner_count_zero)
      moreover have "owner_count [A ! k] e = 0" using ek by (simp add: owner_count_single)
      moreover have "owner_count [?x] e = 1" by (simp add: owner_count_single)
      ultimately show ?thesis using oc [of e] by simp
    qed
    have ok': "state_ok (insert e L, N, ?A)"
      using L' nok' by (simp add: state_ok_def)
    have ext: "extends (L, N, A) (insert e L, N, ?A)"
      using nm' pre keep by (auto simp: extends_def)
    show ?thesis using st ok' ext one by blast
  next
    case new
    let ?a = "author_zero\<lparr>name := nm, emails := [e]\<rparr>"
    let ?A = "A @ [?a]"
    let ?N = "N(nm \<mapsto> length A)"
    have st: "reconcile_step (L, N, A) (e, nm) = Some (insert e L, ?N, ?A)"
      using new by (simp add: step_new)
    have L': "insert e L = set (concat (map emails ?A))"
      using L by simp
    have nok': "names_ok ?N ?A"
      unfolding names_ok_def
    proof (intro allI impI)
      fix nm' k assume h: "?N nm' = Some k"
      show "k < length ?A \<and> name (?A ! k) = nm'"
      proof (cases "nm' = nm")
        case True
        with h have "k = length A" by simp
        with True show ?thesis by simp
      next
        case False
        with h have "N nm' = Some k" by simp
        with nok have "k < length A \<and> name (A ! k) = nm'" by (simp add: names_ok_def)
        then show ?thesis by (simp add: nth_append)
      qed
    qed
    have keep: "owner_count ?A e' = owner_count A e'" if "e' \<in> L" for e'
    proof -
      from that new(1) have "e' \<noteq> e" by auto
      then show ?thesis by (simp add: owner_count_append owner_count_single)
    qed
    have one: "owner_count ?A e = 1"
    proof -
      have "owner_count A e = 0" using new(1) L by (simp add: owner_count_zero)
      then show ?thesis by (simp add: owner_count_append owner_count_single)
    qed
    have nms: "?N nm' = Some k" if "nm' \<noteq> []" "N nm' = Some k" for nm' k
      using that new(2) by auto
    have ok': "state_ok (insert e L, ?N, ?A)"
      using L' nok' by (simp add: state_ok_def)
    have ext: "extends (L, N, A) (insert e L, ?N, ?A)"
      using keep nms by (auto simp: extends_def nth_append)
    show ?thesis using st ok' ext one by blast
  qed
qed


lemma step_unique:
  assumes ok: "state_ok (L, N, A)" and u: "email_unique A"
    and st: "reconcile_step (L, N, A) (e, nm) = Some (L', N', A')"
  shows "email_unique A'"
proof -
  from step_props [OF ok, of e nm] st have
    ok': "state_ok (L', N', A')" and ext: "extends (L, N, A) (L', N', A')"
    and L': "L' = insert e L" and one: "e \<notin> L \<Longrightarrow> owner_count A' e = 1"
    by auto
  from ok have L: "L = set (concat (map emails A))" by (simp add: state_ok_def)
  from ok' have LA': "L' = set (concat (map emails A'))" by (simp add: state_ok_def)
  have "owner_count A' x = 1" if "x \<in> L'" for x
  proof (cases "x \<in> L")
    case True
    with ext have "owner_count A' x = owner_count A x" by (auto simp: extends_def)
    also have "\<dots> = 1" using u True L unfolding email_unique_def by blast
    finally show ?thesis .
  next
    case False
    with that L' have "x = e" by auto
    with False one show ?thesis by simp
  qed
  then show ?thesis using LA' unfolding email_unique_def by blast
qed

lemma loop_props:
  assumes "state_ok st"
  shows "\<exists>st'. reconcile_loop st kvs = Some st' \<and> state_ok st' \<and> extends st st' \<and>
           fst st' = fst st \<union> set (map fst kvs) \<and>
           (email_unique (snd (snd st)) \<longrightarrow> email_unique (snd (snd st')))"
  using assms
proof (induction kvs arbitrary: st)
  case Nil
  then show ?case by (simp add: extends_refl)
next
  case (Cons kv kvs)
  obtain L N A where st: "st = (L, N, A)" by (cases st) auto
  obtain e nm where kv: "kv = (e, nm)" by (cases kv) auto
  from Cons.prems st have ok: "state_ok (L, N, A)" by simp
  from step_props [OF ok, of e nm] obtain L1 N1 A1 where
    s1: "reconcile_step (L, N, A) (e, nm) = Some (L1, N1, A1)"
    and ok1: "state_ok (L1, N1, A1)" and ext1: "extends (L, N, A) (L1, N1, A1)"
    and L1: "L1 = insert e L"
    by blast
  from Cons.IH [OF ok1] obtain st' where
    l: "reconcile_loop (L1, N1, A1) kvs = Some st'"
    and ok': "state_ok st'" and ext': "extends (L1, N1, A1) st'"
    and L': "fst st' = L1 \<union> set (map fst kvs)"
    and u': "email_unique A1 \<longrightarrow> email_unique (snd (snd st'))"
    by auto
  have "reconcile_loop st (kv # kvs) = Some st'"
    using s1 l st kv by simp
  moreover have "extends st st'"
    using ext1 ext' st by (auto intro: extends_trans)
  moreover have "fst st' = fst st \<union> set (map fst (kv # kvs))"
    using L' L1 st kv by auto
  moreover have "email_unique (snd (snd st)) \<longrightarrow> email_unique (snd (snd st'))"
    using u' step_unique [OF ok _ s1] st by auto
  ultimately show ?case using ok' by blast
qed


lemma loop_listed:
  "set (map fst kvs) \<subseteq> L \<Longrightarrow> reconcile_loop (L, N, A) kvs = Some (L, N, A)"
proof (induction kvs)
  case Nil
  show ?case by simp
next
  case (Cons kv kvs)
  obtain e nm where kv: "kv = (e, nm)" by (cases kv) auto
  with Cons.prems have "e \<in> L" by simp
  then have "reconcile_step (L, N, A) (e, nm) = Some (L, N, A)" by (rule step_listed)
  with Cons kv show ?case by simp
qed

lemma main_reconcile_eq:
  "main_reconcile as kvs =
     map_option (\<lambda>st. snd (snd st))
       (reconcile_loop (fst (init_index as), snd (init_index as), as) kvs)"
  by (simp add: main_reconcile_def split: prod.splits)

text \<open>
  Claim C2, as amended. When every email of the input roster is in the \<open>emails\<close> of exactly
  one contributor, reconciliation returns a roster with the same property, for every
  sequence of (email, name) entries the loop may be given, hence for every history and
  every order in which the loop walks the map.
\<close>

theorem reconcile_keeps_emails_unique:
  assumes "email_unique roster"
  shows "\<exists>R. main_reconcile roster kvs = Some R \<and> email_unique R"
proof -
  let ?st = "(fst (init_index roster), snd (init_index roster), roster)"
  from loop_props [OF init_state_ok, of roster kvs] obtain st' where
    l: "reconcile_loop ?st kvs = Some st'"
    and u: "email_unique roster \<longrightarrow> email_unique (snd (snd st'))"
    by auto
  from l have "main_reconcile roster kvs = Some (snd (snd st'))"
    by (simp add: main_reconcile_eq)
  with u assms show ?thesis by simp
qed

text \<open>Evaluation of the reconciliation on concrete rosters.\<close>

lemmas reconcile_eval = main_reconcile_def init_index_def index_author_def reconcile_step_def
  has_def add_def author_zero_def

lemma getAuthors_shared_email: "getAuthors ''A <e>\<newline>B <e>'' =
   [author_zero\<lparr>name := ''A'', emails := [''e'']\<rparr>, author_zero\<lparr>name := ''B'', emails := [''e'']\<rparr>]"
  by (simp add: getAuthors_def newline_def parse_line_def Fields_def space_width_def ascii_space_def
      parse_field_def nicknameRe_def emailRe_def group_upto_def regex_space_def author_zero_def)

text \<open>
  The claim C2 as stated fails: the parser takes the same email on two roster lines, and
  reconciliation leaves both contributors holding it.
\<close>

theorem reconcile_emails_unique_counterexample:
  "main_reconcile (getAuthors ''A <e>\<newline>B <e>'') [] =
     Some [author_zero\<lparr>name := ''A'', emails := [''e'']\<rparr>,
           author_zero\<lparr>name := ''B'', emails := [''e'']\<rparr>] \<and>
   owner_count [author_zero\<lparr>name := ''A'', emails := [''e'']\<rparr>,
                author_zero\<lparr>name := ''B'', emails := [''e'']\<rparr>] ''e'' = 2 \<and>
   \<not> email_unique [author_zero\<lparr>name := ''A'', emails := [''e'']\<rparr>,
                     author_zero\<lparr>name := ''B'', emails := [''e'']\<rparr>]"
  by (simp add: getAuthors_shared_email reconcile_eval owner_count_def email_unique_def)

theorem reconcile_keeps_emails_unique_witness:
  "email_unique [author_zero\<lparr>name := ''Bob'', emails := [''bob@x.com'']\<rparr>] \<and>
   main_reconcile [author_zero\<lparr>name := ''Bob'', emails := [''bob@x.com'']\<rparr>]
      [(''a@x.com'', ''Alice''), (''b@x.com'', ''Bob'')] =
     Some [author_zero\<lparr>name := ''Bob'', emails := [''bob@x.com'', ''b@x.com'']\<rparr>,
           author_zero\<lparr>name := ''Alice'', emails := [''a@x.com'']\<rparr>] \<and>
   email_unique [author_zero\<lparr>name := ''Bob'', emails := [''bob@x.com'', ''b@x.com'']\<rparr>,
           author_zero\<lparr>name := ''Alice'', emails := [''a@x.com'']\<rparr>]"
proof -
  have h: "email_unique [author_zero\<lparr>name := ''Bob'', emails := [''bob@x.com'']\<rparr>]"
    by (simp add: email_unique_def owner_count_def)
  have ev: "main_reconcile [author_zero\<lparr>name := ''Bob'', emails := [''bob@x.com'']\<rparr>]
      [(''a@x.com'', ''Alice''), (''b@x.com'', ''Bob'')] =
     Some [author_zero\<lparr>name := ''Bob'', emails := [''bob@x.com'', ''b@x.com'']\<rparr>,
           author_zero\<lparr>name := ''Alice'', emails := [''a@x.com'']\<rparr>]"
    by (simp add: reconcile_eval)
  from reconcile_keeps_emails_unique [OF h, of "[(''a@x.com'', ''Alice''), (''b@x.com'', ''Bob'')]"]
  show ?thesis using h ev by simp
qed

lemma reconcile_second_run:
  assumes "set (map fst kvs') \<subseteq> set (map fst kvs)"
  shows "\<exists>R. main_reconcile roster kvs = Some R \<and> main_reconcile R kvs' = Some R"
proof -
  let ?st = "(fst (init_index roster), snd (init_index roster), roster)"
  from loop_props [OF init_state_ok, of roster kvs] obtain L N R where
    l: "reconcile_loop ?st kvs = Some (L, N, R)"
    and ok: "state_ok (L, N, R)"
    and L: "L = fst (init_index roster) \<union> set (map fst kvs)"
    by auto
  from l have 1: "main_reconcile roster kvs = Some R"
    by (simp add: main_reconcile_eq)
  from ok have "L = fst (init_index R)"
    by (simp add: state_ok_def init_listed)
  with L assms have "set (map fst kvs') \<subseteq> fst (init_index R)" by auto
  then have "reconcile_loop (fst (init_index R), snd (init_index R), R) kvs'
      = Some (fst (init_index R), snd (init_index R), R)"
    by (rule loop_listed)
  then have 2: "main_reconcile R kvs' = Some R"
    by (simp add: main_reconcile_eq)
  from 1 2 show ?thesis by blast
qed







lemma owner_count_one_at:
  assumes one: "owner_count A e = 1" and k: "k < length A" and ek: "e \<in> set (emails (A ! k))"
    and j: "j < length A" and ej: "e \<in> set (emails (A ! j))"
  shows "j = k"
proof (rule ccontr)
  assume ne: "j \<noteq> k"
  have "owner_count A e =
      owner_count (take k A) e + owner_count [A ! k] e + owner_count (drop (Suc k) A) e"
    using owner_count_split [OF k] .
  with one ek have z: "owner_count (take k A) e = 0" "owner_count (drop (Suc k) A) e = 0"
    by (simp_all add: owner_count_single)
  show False
  proof (cases "j < k")
    case True
    then have "A ! j \<in> set (take k A)"
      using j by (auto simp: in_set_conv_nth intro!: exI [of _ j])
    with ej z(1) show False by (auto simp: owner_count_zero)
  next
    case False
    with ne have "Suc k \<le> j" by simp
    then have "A ! j = drop (Suc k) A ! (j - Suc k)" using j by simp
    moreover have "j - Suc k < length (drop (Suc k) A)" using j \<open>Suc k \<le> j\<close> by simp
    ultimately have "A ! j \<in> set (drop (Suc k) A)"
      by (metis nth_mem)
    with ej z(2) show False by (auto simp: owner_count_zero)
  qed
qed











text \<open>
  Claim C9. Reconciliation is idempotent: run again on its own result with the same
  history map, in whatever order the map is walked the second time, it returns that
  result unchanged: no contributor is added and no email appended.
\<close>

theorem reconcile_idempotent:
  assumes "range_order all kvs" and "range_order all kvs'"
  shows "\<exists>R. main_reconcile roster kvs = Some R \<and> main_reconcile R kvs' = Some R"
proof -
  from assms have "map_of kvs = map_of kvs'" by (simp add: range_order_def)
  then have "dom (map_of kvs') = dom (map_of kvs)" by simp
  then have "set (map fst kvs') \<subseteq> set (map fst kvs)" by (simp add: dom_map_of_conv_image_fst)
  then show ?thesis by (rule reconcile_second_run)
qed

theorem reconcile_idempotent_witness:
  "range_order [''a@x.com'' \<mapsto> ''Alice'', ''b@x.com'' \<mapsto> ''Alice'']
      [(''b@x.com'', ''Alice''), (''a@x.com'', ''Alice'')] \<and>
   range_order [''a@x.com'' \<mapsto> ''Alice'', ''b@x.com'' \<mapsto> ''Alice'']
      [(''a@x.com'', ''Alice''), (''b@x.com'', ''Alice'')] \<and>
   main_reconcile [] [(''b@x.com'', ''Alice''), (''a@x.com'', ''Alice'')] =
     Some [author_zero\<lparr>name := ''Alice'', emails := [''b@x.com'', ''a@x.com'']\<rparr>] \<and>
   main_reconcile [author_zero\<lparr>name := ''Alice'', emails := [''b@x.com'', ''a@x.com'']\<rparr>]
      [(''a@x.com'', ''Alice''), (''b@x.com'', ''Alice'')] =
     Some [author_zero\<lparr>name := ''Alice'', emails := [''b@x.com'', ''a@x.com'']\<rparr>]"
proof -
  have r1: "range_order [''a@x.com'' \<mapsto> ''Alice'', ''b@x.com'' \<mapsto> ''Alice'']
      [(''b@x.com'', ''Alice''), (''a@x.com'', ''Alice'')]"
    by (simp add: range_order_def)
  have r2: "range_order [''a@x.com'' \<mapsto> ''Alice'', ''b@x.com'' \<mapsto> ''Alice'']
      [(''a@x.com'', ''Alice''), (''b@x.com'', ''Alice'')]"
    by (auto simp: range_order_def fun_eq_iff)
  have ev: "main_reconcile [] [(''b@x.com'', ''Alice''), (''a@x.com'', ''Alice'')] =
     Some [author_zero\<lparr>name := ''Alice'', emails := [''b@x.com'', ''a@x.com'']\<rparr>]"
    by (simp add: reconcile_eval)
  from reconcile_idempotent [OF r1 r2, of "[]"] ev r1 r2 show ?thesis by auto
qed

section \<open>allAuthors: the name of an email\<close>

lemma Split_line: "sep \<notin> set l \<Longrightarrow> Split (l @ sep # rest) sep = l # Split rest sep"
  by (induction l) auto

lemma Split_records:
  "\<forall>c \<in> set history. newline \<notin> set (record_line c) \<Longrightarrow>
   Split (git_log_H_ae_an history) newline = map record_line history @ [Nil]"
  by (induction history) (auto simp: git_log_H_ae_an_def Split_line)

lemma well_formed_line: "well_formed c \<Longrightarrow> newline \<notin> set (record_line c)"
  by (auto simp: well_formed_def record_line_def newline_def split: prod.splits)

lemma takeWhile_upto: "sep \<notin> set x \<Longrightarrow> takeWhile (\<lambda>c. c \<noteq> sep) (x @ sep # r) = x"
  by (induction x) auto

lemma dropWhile_upto: "sep \<notin> set x \<Longrightarrow> dropWhile (\<lambda>c. c \<noteq> sep) (x @ sep # r) = sep # r"
  by (induction x) auto

lemma SplitN_record:
  assumes "CHR '' '' \<notin> set h" and "CHR '' '' \<notin> set e"
  shows "SplitN (record_line (h, e, n)) (CHR '' '') 3 = [h, e, n]"
proof -
  have 3: "(3::nat) = Suc (Suc (Suc 0))" by simp
  note tw = takeWhile_upto and dw = dropWhile_upto
  have "SplitN (h @ CHR '' '' # e @ CHR '' '' # n) (CHR '' '') (Suc (Suc (Suc 0))) =
        h # SplitN (e @ CHR '' '' # n) (CHR '' '') (Suc (Suc 0))"
    using tw [OF assms(1)] dw [OF assms(1)] by simp
  also have "SplitN (e @ CHR '' '' # n) (CHR '' '') (Suc (Suc 0)) = [e, n]"
    using tw [OF assms(2)] dw [OF assms(2)] by simp
  finally show ?thesis by (simp add: record_line_def 3)
qed

lemma SplitN_empty: "SplitN [] (CHR '' '') 3 = [Nil]"
  by (simp add: numeral_3_eq_3)

lemma allAuthors_line_record:
  assumes "well_formed (h, e, n)"
  shows "allAuthors_line exclude names (record_line (h, e, n)) =
     (if h \<in> exclude then names
      else if names e = None \<or> names e = Some [] then names(e \<mapsto> n) else names)"
proof -
  from assms have "SplitN (record_line (h, e, n)) (CHR '' '') 3 = [h, e, n]"
    by (intro SplitN_record) (auto simp: well_formed_def)
  then show ?thesis
    by (auto simp: allAuthors_line_def has_def split: option.splits)
qed

lemma allAuthors_line_empty: "allAuthors_line exclude names [] = names"
  by (simp add: allAuthors_line_def SplitN_empty)

lemma first_nonempty_name_Nil: "first_nonempty_name [] e = None"
  by (simp add: first_nonempty_name_def)

lemma first_nonempty_name_Cons:
  "first_nonempty_name ((h, e', n) # rs) e =
     (if e' = e then settle (Some n) (first_nonempty_name rs e) else first_nonempty_name rs e)"
  by (auto simp: first_nonempty_name_def Let_def split: option.splits)

lemma settle_assoc: "settle (settle a b) c = settle a (settle b c)"
  by (cases a; cases b; cases c) auto

lemma loop_records:
  assumes "\<forall>c \<in> set history. well_formed c"
  shows "foldl (allAuthors_line exclude) names (map record_line history) e =
         settle (names e) (first_nonempty_name (filter (\<lambda>c. fst c \<notin> exclude) history) e)"
  using assms
proof (induction history arbitrary: names)
  case Nil
  show ?case by (cases "names e") (simp_all add: first_nonempty_name_Nil)
next
  case (Cons c rs)
  obtain h e' n where c: "c = (h, e', n)" by (cases c) auto
  from Cons.prems c have wf: "well_formed (h, e', n)" and wfs: "\<forall>c \<in> set rs. well_formed c"
    by auto
  let ?names' = "allAuthors_line exclude names (record_line (h, e', n))"
  have step: "?names' = (if h \<in> exclude then names
      else if names e' = None \<or> names e' = Some [] then names(e' \<mapsto> n) else names)"
    using wf by (rule allAuthors_line_record)
  have "foldl (allAuthors_line exclude) names (map record_line (c # rs)) e =
        settle (?names' e) (first_nonempty_name (filter (\<lambda>c. fst c \<notin> exclude) rs) e)"
    using Cons.IH [OF wfs, of ?names'] c by simp
  also have "\<dots> = settle (names e)
        (first_nonempty_name (filter (\<lambda>c. fst c \<notin> exclude) (c # rs)) e)"
  proof (cases "h \<in> exclude")
    case True
    with step c show ?thesis by simp
  next
    case False
    show ?thesis
    proof (cases "e' = e")
      case True
      with step False c show ?thesis
        by (cases "names e") (auto simp: first_nonempty_name_Cons split: option.splits)
    next
      case ne: False
      with step False c show ?thesis
        by (auto simp: first_nonempty_name_Cons)
    qed
  qed
  finally show ?case .
qed

lemma allAuthors_records:
  assumes "\<forall>c \<in> set history. well_formed c"
  shows "allAuthors exclude (git_log_H_ae_an history) e =
         first_nonempty_name (filter (\<lambda>c. fst c \<notin> exclude) history) e"
proof -
  from assms have "\<forall>c \<in> set history. newline \<notin> set (record_line c)"
    by (simp add: well_formed_line)
  then have "Split (git_log_H_ae_an history) newline = map record_line history @ [Nil]"
    by (rule Split_records)
  then have "allAuthors exclude (git_log_H_ae_an history) e =
      foldl (allAuthors_line exclude) Map.empty (map record_line history) e"
    by (simp add: allAuthors_def allAuthors_line_empty)
  also have "\<dots> = settle None (first_nonempty_name (filter (\<lambda>c. fst c \<notin> exclude) history) e)"
    using loop_records [OF assms, of exclude Map.empty e] by simp
  finally show ?thesis by simp
qed


lemma first_name_Cons:
  "first_name ((h, e', n) # rs) e = (if e' = e then Some n else first_name rs e)"
  by (simp add: first_name_def)

lemma first_name_nonempty:
  "first_name history e = Some n \<Longrightarrow> n \<noteq> [] \<Longrightarrow> first_nonempty_name history e = Some n"
proof (induction history)
  case Nil
  then show ?case by (simp add: first_name_def)
next
  case (Cons c rs)
  obtain h e' m where c: "c = (h, e', m)" by (cases c) auto
  with Cons show ?case
    by (auto simp: first_name_Cons first_nonempty_name_Cons split: if_splits)
qed

text \<open>
  Claim C5, as amended. For a history of well-formed records none of which is excluded, the
  name \<open>allAuthors\<close> gives an email is the first non-empty name among the records bearing the
  email, in the order the backend lists them; it is the empty name when all of them have
  the empty name, and the email is absent when no record bears it. So the first record
  bearing the email gives the name whenever its name is not empty.
\<close>

theorem allAuthors_first_nonempty_name:
  assumes "\<forall>c \<in> set history. well_formed c" and "\<forall>c \<in> set history. fst c \<notin> exclude"
  shows "allAuthors exclude (git_log_H_ae_an history) e = first_nonempty_name history e \<and>
         (\<forall>n. first_name history e = Some n \<and> n \<noteq> [] \<longrightarrow>
              allAuthors exclude (git_log_H_ae_an history) e = Some n)"
proof -
  from assms(2) have "filter (\<lambda>c. fst c \<notin> exclude) history = history"
    by (simp add: filter_id_conv)
  with allAuthors_records [OF assms(1), of exclude e]
  have 1: "allAuthors exclude (git_log_H_ae_an history) e = first_nonempty_name history e"
    by simp
  then show ?thesis using first_name_nonempty by auto
qed

lemmas allAuthors_eval = allAuthors_def git_log_H_ae_an_def record_line_def newline_def
  allAuthors_line_def has_def numeral_3_eq_3

text \<open>
  The claim C5 as stated fails when the first record bearing the email has the empty name:
  the test \<^verbatim>\<open>names[email] == ""\<close> takes the stored empty name for a missing entry, and a later
  record overwrites it.
\<close>

theorem allAuthors_first_name_counterexample:
  "well_formed (''h1'', ''e'', []) \<and> well_formed (''h2'', ''e'', ''Bob'') \<and>
   ''h1'' \<notin> {} \<and> ''h2'' \<notin> {} \<and>
   first_name [(''h1'', ''e'', []), (''h2'', ''e'', ''Bob'')] ''e'' = Some [] \<and>
   allAuthors {} (git_log_H_ae_an [(''h1'', ''e'', []), (''h2'', ''e'', ''Bob'')]) ''e''
     = Some ''Bob''"
  by (simp add: allAuthors_eval well_formed_def first_name_def)

theorem allAuthors_first_nonempty_name_witness:
  "well_formed (''h1'', ''a@x.com'', ''Alice'') \<and> well_formed (''h2'', ''a@x.com'', ''Al'') \<and>
   ''h1'' \<notin> {''h9''} \<and> ''h2'' \<notin> {''h9''} \<and>
   first_name [(''h1'', ''a@x.com'', ''Alice''), (''h2'', ''a@x.com'', ''Al'')] ''a@x.com''
     = Some ''Alice'' \<and>
   allAuthors {''h9''}
     (git_log_H_ae_an [(''h1'', ''a@x.com'', ''Alice''), (''h2'', ''a@x.com'', ''Al'')]) ''a@x.com''
     = Some ''Alice''"
proof -
  have wf: "\<forall>c \<in> set [(''h1'', ''a@x.com'', ''Alice''), (''h2'', ''a@x.com'', ''Al'')]. well_formed c"
    by (simp add: well_formed_def newline_def)
  have ne: "\<forall>c \<in> set [(''h1'', ''a@x.com'', ''Alice''), (''h2'', ''a@x.com'', ''Al'')].
      fst c \<notin> {''h9''}"
    by simp
  have fn: "first_name [(''h1'', ''a@x.com'', ''Alice''), (''h2'', ''a@x.com'', ''Al'')] ''a@x.com''
     = Some ''Alice''"
    by (simp add: first_name_def)
  from allAuthors_first_nonempty_name [OF wf ne, of "''a@x.com''"] fn
  have "allAuthors {''h9''}
     (git_log_H_ae_an [(''h1'', ''a@x.com'', ''Alice''), (''h2'', ''a@x.com'', ''Al'')]) ''a@x.com''
     = Some ''Alice''"
    by blast
  with wf ne fn show ?thesis by (simp add: well_formed_def newline_def)
qed

section \<open>getContributions: the commit counts\<close>

lemma Split_no_sep: "sep \<notin> set l \<Longrightarrow> Split l sep = [l]"
  by (induction l) auto

lemma Split_Join:
  "xs \<noteq> [] \<Longrightarrow> \<forall>x \<in> set xs. sep \<notin> set x \<Longrightarrow> Split (Join xs [sep]) sep = xs"
proof (induction xs "[sep]" rule: Join.induct)
  case 1
  then show ?case by simp
next
  case (2 x)
  then show ?case by (simp add: Split_no_sep)
next
  case (3 x y zs)
  then show ?case by (simp add: Split_line)
qed

lemma Split_git_log_ae:
  assumes "history \<noteq> []" and "\<forall>c \<in> set history. newline \<notin> set (fst (snd c))"
  shows "Split (git_log_ae history) newline = map (\<lambda>c. fst (snd c)) history"
proof -
  have m: "map (\<lambda>(h, e, n). e) history = map (\<lambda>c. fst (snd c)) history"
    by (simp add: case_prod_beta)
  have "Split (Join (map (\<lambda>c. fst (snd c)) history) [newline]) newline
        = map (\<lambda>c. fst (snd c)) history"
    using assms by (intro Split_Join) auto
  then show ?thesis by (simp add: git_log_ae_def m)
qed

lemma foldl_index: "foldl (\<lambda>idx email. idx(email \<mapsto> i)) m es e = (if e \<in> set es then Some i else m e)"
  by (induction es arbitrary: m) auto

lemma emailIdx_Nil: "emailIdx [] = Map.empty"
  by (simp add: emailIdx_def)

lemma emailIdx_snoc:
  "emailIdx (as @ [a]) e = (if e \<in> set (emails a) then Some (length as) else emailIdx as e)"
  by (simp add: emailIdx_def enumerate_append_eq foldl_index)

lemma emailIdx_Some:
  "emailIdx as e = Some i \<Longrightarrow> i < length as \<and> e \<in> set (emails (as ! i))"
proof (induction as rule: rev_induct)
  case Nil
  then show ?case by (simp add: emailIdx_Nil)
next
  case (snoc a as)
  then show ?case
    by (cases "e \<in> set (emails a)") (auto simp: emailIdx_snoc nth_append)
qed

lemma emailIdx_None: "emailIdx as e = None \<longleftrightarrow> e \<notin> set (concat (map emails as))"
  by (induction as rule: rev_induct) (auto simp: emailIdx_Nil emailIdx_snoc)

lemma emailIdx_unique:
  assumes "email_unique as"
  shows "emailIdx as e = Some i \<longleftrightarrow> i < length as \<and> e \<in> set (emails (as ! i))"
proof
  assume "emailIdx as e = Some i"
  then show "i < length as \<and> e \<in> set (emails (as ! i))" by (rule emailIdx_Some)
next
  assume r: "i < length as \<and> e \<in> set (emails (as ! i))"
  then have "e \<in> set (concat (map emails as))" by auto
  with assms have one: "owner_count as e = 1" unfolding email_unique_def by blast
  from \<open>e \<in> set (concat (map emails as))\<close> obtain j where j: "emailIdx as e = Some j"
    using emailIdx_None [of as e] by (cases "emailIdx as e") auto
  from emailIdx_Some [OF j] have "j < length as" "e \<in> set (emails (as ! j))" by auto
  with owner_count_one_at [OF one _ _ this] r have "j = i" by blast
  with j show "emailIdx as e = Some i" by simp
qed

lemma count_line_length:
  "length (count_line idx A l) = length A"
  by (simp add: count_line_def split: option.splits)

lemma count_line_nth:
  assumes "i < length A"
  shows "count_line idx A l ! i =
           (if idx l = Some i then (A ! i)\<lparr>commits := commits (A ! i) + 1\<rparr> else A ! i)"
  using assms by (auto simp: count_line_def split: option.splits)

lemma count_loop_length: "length (foldl (count_line idx) A ls) = length A"
  by (induction ls arbitrary: A) (simp_all add: count_line_length)

lemma count_loop_nth:
  assumes "i < length A"
  shows "foldl (count_line idx) A ls ! i =
           (A ! i)\<lparr>commits := commits (A ! i) + int (length (filter (\<lambda>l. idx l = Some i) ls))\<rparr>"
  using assms
proof (induction ls arbitrary: A)
  case Nil
  then show ?case by simp
next
  case (Cons l ls)
  from Cons.prems have "i < length (count_line idx A l)" by (simp add: count_line_length)
  from Cons.IH [OF this] Cons.prems show ?case
    by (simp add: count_line_nth)
qed

lemma getContributions_length:
  "length (getContributions log2 A out) = length A"
  by (simp add: getContributions_def count_loop_length)

lemma getContributions_nth:
  assumes "i < length A"
  shows "getContributions log2 A out ! i =
     (A ! i)\<lparr>commits := commits (A ! i)
                 + int (length (filter (\<lambda>l. emailIdx A l = Some i) (Split out newline))),
              geekrank := log2 (commits (A ! i)
                 + int (length (filter (\<lambda>l. emailIdx A l = Some i) (Split out newline))))\<rparr>"
  using assms by (simp add: getContributions_def count_loop_length count_loop_nth)


lemma emailIdx_cong:
  "length as = length bs \<Longrightarrow> \<forall>i < length as. emails (as ! i) = emails (bs ! i) \<Longrightarrow>
   emailIdx as e = emailIdx bs e"
proof (induction as arbitrary: bs rule: rev_induct)
  case Nil
  then show ?case by simp
next
  case (snoc a as)
  from snoc.prems(1) obtain bs' b where bs: "bs = bs' @ [b]"
    by (cases bs rule: rev_cases) auto
  with snoc.prems(1) have len: "length as = length bs'" by simp
  have "length as < length (as @ [a])" by simp
  with snoc.prems(2) have "emails ((as @ [a]) ! length as) = emails (bs ! length as)"
    by blast
  then have ab: "emails a = emails b"
    using len [symmetric] by (simp add: bs nth_append)
  have "\<forall>i < length as. emails (as ! i) = emails (bs' ! i)"
  proof (intro allI impI)
    fix i assume i: "i < length as"
    with snoc.prems(2) [rule_format, of i] bs len show "emails (as ! i) = emails (bs' ! i)"
      by (simp add: nth_append)
  qed
  from snoc.IH [OF len this] ab len bs show ?case
    by (simp add: emailIdx_snoc)
qed

lemma parse_field_commits: "commits (parse_field a f) = commits a"
  by (simp add: parse_field_def split: option.splits)

lemma parse_fields_commits: "commits (foldl parse_field a fs) = commits a"
  by (induction fs arbitrary: a) (simp_all add: parse_field_commits)

lemma getAuthors_commits: "a \<in> set (getAuthors bs) \<Longrightarrow> commits a = 0"
  by (auto simp: getAuthors_def parse_line_def parse_fields_commits author_zero_def)

lemma step_commits:
  assumes "reconcile_step (L, N, A) kv = Some (L', N', A')" and "\<forall>a \<in> set A. commits a = 0"
  shows "\<forall>a \<in> set A'. commits a = 0"
proof -
  obtain e nm where kv: "kv = (e, nm)" by (cases kv) auto
  have upd: "\<forall>a \<in> set (A[k := (A ! k)\<lparr>emails := emails (A ! k) @ [e]\<rparr>]). commits a = 0"
    if "k < length A" for k
  proof
    fix a assume "a \<in> set (A[k := (A ! k)\<lparr>emails := emails (A ! k) @ [e]\<rparr>])"
    then have "a = (A ! k)\<lparr>emails := emails (A ! k) @ [e]\<rparr> \<or> a \<in> set A"
      using set_update_subset_insert [of A k] by auto
    with assms(2) that show "commits a = 0" by auto
  qed
  from assms kv upd show ?thesis
    by (auto simp: reconcile_step_def Let_def author_zero_def split: if_splits)
qed

lemma loop_commits:
  "reconcile_loop st kvs = Some st' \<Longrightarrow> \<forall>a \<in> set (snd (snd st)). commits a = 0 \<Longrightarrow>
   \<forall>a \<in> set (snd (snd st')). commits a = 0"
proof (induction kvs arbitrary: st)
  case Nil
  then show ?case by simp
next
  case (Cons kv kvs)
  obtain L N A where st: "st = (L, N, A)" by (cases st) auto
  from Cons.prems(1) obtain st1 where s1: "reconcile_step st kv = Some st1"
    and l: "reconcile_loop st1 kvs = Some st'"
    by (auto split: option.splits)
  obtain L1 N1 A1 where st1: "st1 = (L1, N1, A1)" by (cases st1) auto
  from step_commits [of L N A kv L1 N1 A1] s1 st st1 Cons.prems(2)
  have "\<forall>a \<in> set (snd (snd st1)). commits a = 0" by simp
  from Cons.IH [OF l this] show ?case .
qed

lemma main_reconcile_total: "\<exists>R. main_reconcile roster kvs = Some R"
proof -
  from loop_props [OF init_state_ok, of roster kvs] obtain st' where
    "reconcile_loop (fst (init_index roster), snd (init_index roster), roster) kvs = Some st'"
    by blast
  then show ?thesis by (simp add: main_reconcile_eq)
qed

lemma main_reconcile_commits:
  assumes "main_reconcile roster kvs = Some A" and "\<forall>a \<in> set roster. commits a = 0"
  shows "\<forall>a \<in> set A. commits a = 0"
proof -
  from assms(1) obtain st' where
    l: "reconcile_loop (fst (init_index roster), snd (init_index roster), roster) kvs = Some st'"
    and A: "A = snd (snd st')"
    by (auto simp: main_reconcile_eq)
  from loop_commits [OF l] assms(2) A show ?thesis by simp
qed

text \<open>
  Claim C1, as amended. The counting step reads the email of every commit of the history
  and never sees the exclude set. For a non-empty history, whatever the exclude set and
  the order in which the discovered map is walked, the run up to the counting succeeds,
  and the \<open>commits\<close> of the contributor at position \<open>i\<close> is the number of all commits, excluded
  or not, whose email the email index gives to \<open>i\<close>. When the emails of the result are
  unique, that is the number of all commits whose email is one of the contributor's.
\<close>

theorem commits_count_every_commit:
  assumes ne: "history \<noteq> []"
    and wf: "\<forall>c \<in> set history. newline \<notin> set (fst (snd c))"
    and ro: "range_order (allAuthors exclude (git_log_H_ae_an history)) kvs"
  shows "\<exists>R. main_counted log2 (getAuthors roster_text) history kvs = Some R \<and>
           (\<forall>i < length R.
              commits (R ! i) =
                int (length (filter (\<lambda>c. emailIdx R (fst (snd c)) = Some i) history)) \<and>
              (email_unique R \<longrightarrow>
                 commits (R ! i) =
                   int (length (filter (\<lambda>c. fst (snd c) \<in> set (emails (R ! i))) history))))"
proof -
  obtain A where A: "main_reconcile (getAuthors roster_text) kvs = Some A"
    using main_reconcile_total by blast
  have zero: "\<forall>a \<in> set A. commits a = 0"
    using main_reconcile_commits [OF A] getAuthors_commits by blast
  let ?R = "getContributions log2 A (git_log_ae history)"
  have res: "main_counted log2 (getAuthors roster_text) history kvs = Some ?R"
    by (simp add: main_counted_def A)
  have len: "length ?R = length A" by (rule getContributions_length)
  have lines: "Split (git_log_ae history) newline = map (\<lambda>c. fst (snd c)) history"
    using ne wf by (rule Split_git_log_ae)
  have em: "emails (?R ! i) = emails (A ! i)" if "i < length A" for i
    using that by (simp add: getContributions_nth)
  have idx: "emailIdx ?R e = emailIdx A e" for e
    by (rule emailIdx_cong) (simp_all add: len em)
  have cnt: "commits (?R ! i) =
      int (length (filter (\<lambda>c. emailIdx ?R (fst (snd c)) = Some i) history))"
    if "i < length ?R" for i
  proof -
    from that len have i: "i < length A" by simp
    then have "commits (A ! i) = 0" using zero by simp
    then have "commits (?R ! i) =
        int (length (filter (\<lambda>l. emailIdx A l = Some i) (map (\<lambda>c. fst (snd c)) history)))"
      using i by (simp add: getContributions_nth lines)
    also have "\<dots> = int (length (filter (\<lambda>c. emailIdx A (fst (snd c)) = Some i) history))"
      by (simp add: filter_map comp_def)
    finally show ?thesis by (simp add: idx)
  qed
  have cnt': "commits (?R ! i) =
      int (length (filter (\<lambda>c. fst (snd c) \<in> set (emails (?R ! i))) history))"
    if "i < length ?R" and u: "email_unique ?R" for i
  proof -
    have "(\<lambda>c. emailIdx ?R (fst (snd c)) = Some i) = (\<lambda>c. fst (snd c) \<in> set (emails (?R ! i)))"
      using emailIdx_unique [OF u] that(1) by auto
    then have "filter (\<lambda>c. emailIdx ?R (fst (snd c)) = Some i) history
        = filter (\<lambda>c. fst (snd c) \<in> set (emails (?R ! i))) history"
      by (rule arg_cong)
    with cnt [OF that(1)] show ?thesis by (simp only:)
  qed
  from res cnt cnt' show ?thesis by blast
qed


lemma getAuthors_Bob:
  "getAuthors ''Bob <bob@x.com>'' = [author_zero\<lparr>name := ''Bob'', emails := [''bob@x.com'']\<rparr>]"
  by (simp add: getAuthors_def newline_def parse_line_def Fields_def space_width_def ascii_space_def
      parse_field_def nicknameRe_def emailRe_def group_upto_def regex_space_def author_zero_def)

lemma allAuthors_hash2_excluded:
  "allAuthors (load_exclude ''hash2'')
     (git_log_H_ae_an [(''hash1'', ''bob@x.com'', ''Bob''), (''hash2'', ''bob@x.com'', ''Bob'')])
   = [''bob@x.com'' \<mapsto> ''Bob'']"
  by (simp add: allAuthors_eval load_exclude_def stringSetFromStrings_def add_def)

lemmas getContributions_eval = main_counted_def getContributions_def emailIdx_def count_line_def
  git_log_ae_def newline_def

lemma main_counted_Bob:
  "main_counted log2 [author_zero\<lparr>name := ''Bob'', emails := [''bob@x.com'']\<rparr>]
     [(''hash1'', ''bob@x.com'', ''Bob''), (''hash2'', ''bob@x.com'', ''Bob'')]
     [(''bob@x.com'', ''Bob'')]
   = Some [author_zero\<lparr>name := ''Bob'', emails := [''bob@x.com''], commits := 2,
             geekrank := log2 2\<rparr>]"
  by (simp add: getContributions_eval reconcile_eval)

text \<open>
  The claim C1 as stated fails: with \<open>hash2\<close> in the exclude file and two commits by Bob, one
  of them \<open>hash2\<close>, Bob is counted 2 commits; one commit of his is not excluded.
\<close>

theorem excluded_commit_counted_counterexample:
  "''hash2'' \<in> load_exclude ''hash2'' \<and>
   range_order
     (allAuthors (load_exclude ''hash2'')
        (git_log_H_ae_an [(''hash1'', ''bob@x.com'', ''Bob''), (''hash2'', ''bob@x.com'', ''Bob'')]))
     [(''bob@x.com'', ''Bob'')] \<and>
   map_option (map commits)
     (main_counted floor_log2 (getAuthors ''Bob <bob@x.com>'')
        [(''hash1'', ''bob@x.com'', ''Bob''), (''hash2'', ''bob@x.com'', ''Bob'')]
        [(''bob@x.com'', ''Bob'')]) = Some [2] \<and>
   non_excluded_commits (load_exclude ''hash2'')
     [(''hash1'', ''bob@x.com'', ''Bob''), (''hash2'', ''bob@x.com'', ''Bob'')] ''bob@x.com'' = 1"
proof -
  have ex: "load_exclude ''hash2'' = {''hash2''}"
    by (simp add: load_exclude_def stringSetFromStrings_def add_def newline_def)
  have a: "''hash2'' \<in> load_exclude ''hash2''"
    by (simp add: ex)
  have b: "range_order
     (allAuthors (load_exclude ''hash2'')
        (git_log_H_ae_an [(''hash1'', ''bob@x.com'', ''Bob''), (''hash2'', ''bob@x.com'', ''Bob'')]))
     [(''bob@x.com'', ''Bob'')]"
    by (simp add: allAuthors_hash2_excluded range_order_def)
  have c: "map_option (map commits)
     (main_counted floor_log2 (getAuthors ''Bob <bob@x.com>'')
        [(''hash1'', ''bob@x.com'', ''Bob''), (''hash2'', ''bob@x.com'', ''Bob'')]
        [(''bob@x.com'', ''Bob'')]) = Some [2]"
    by (simp add: getAuthors_Bob main_counted_Bob)
  have d: "non_excluded_commits (load_exclude ''hash2'')
     [(''hash1'', ''bob@x.com'', ''Bob''), (''hash2'', ''bob@x.com'', ''Bob'')] ''bob@x.com'' = 1"
    by (simp add: ex non_excluded_commits_def)
  from a b c d show ?thesis by (intro conjI)
qed

theorem commits_count_every_commit_witness:
  "[(''hash1'', ''bob@x.com'', ''Bob''), (''hash2'', ''bob@x.com'', ''Bob'')] \<noteq> [] \<and>
   newline \<notin> set ''bob@x.com'' \<and>
   range_order
     (allAuthors (load_exclude ''hash2'')
        (git_log_H_ae_an [(''hash1'', ''bob@x.com'', ''Bob''), (''hash2'', ''bob@x.com'', ''Bob'')]))
     [(''bob@x.com'', ''Bob'')] \<and>
   main_counted floor_log2 (getAuthors ''Bob <bob@x.com>'')
     [(''hash1'', ''bob@x.com'', ''Bob''), (''hash2'', ''bob@x.com'', ''Bob'')]
     [(''bob@x.com'', ''Bob'')]
   = Some [author_zero\<lparr>name := ''Bob'', emails := [''bob@x.com''], commits := 2,
             geekrank := floor_log2 2\<rparr>] \<and>
   commits (author_zero\<lparr>name := ''Bob'', emails := [''bob@x.com''], commits := 2,
             geekrank := floor_log2 2\<rparr>) =
     int (length (filter (\<lambda>c. fst (snd c) \<in> set [''bob@x.com''])
       [(''hash1'', ''bob@x.com'', ''Bob''), (''hash2'', ''bob@x.com'', ''Bob'')]))"
proof -
  let ?H = "[(''hash1'', ''bob@x.com'', ''Bob''), (''hash2'', ''bob@x.com'', ''Bob'')]"
  let ?R = "[author_zero\<lparr>name := ''Bob'', emails := [''bob@x.com''], commits := 2,
             geekrank := floor_log2 2\<rparr>]"
  have ne: "?H \<noteq> []" by simp
  have nl: "newline \<notin> set ''bob@x.com''" by (simp add: newline_def)
  then have wf: "\<forall>c \<in> set ?H. newline \<notin> set (fst (snd c))" by simp
  have ro: "range_order (allAuthors (load_exclude ''hash2'') (git_log_H_ae_an ?H))
      [(''bob@x.com'', ''Bob'')]"
    by (simp add: allAuthors_hash2_excluded range_order_def)
  have ev: "main_counted floor_log2 (getAuthors ''Bob <bob@x.com>'') ?H [(''bob@x.com'', ''Bob'')]
      = Some ?R"
    by (simp add: getAuthors_Bob main_counted_Bob)
  have u: "email_unique ?R" by (simp add: email_unique_def owner_count_def)
  from commits_count_every_commit [OF ne wf ro, of floor_log2 "''Bob <bob@x.com>''"] ev
  have "\<forall>i < length ?R. email_unique ?R \<longrightarrow>
      commits (?R ! i) = int (length (filter (\<lambda>c. fst (snd c) \<in> set (emails (?R ! i))) ?H))"
    by simp
  with u have "commits (?R ! 0) = int (length (filter (\<lambda>c. fst (snd c) \<in> set (emails (?R ! 0))) ?H))"
    by simp
  then have "commits (hd ?R) = int (length (filter (\<lambda>c. fst (snd c) \<in> set [''bob@x.com'']) ?H))"
    by simp
  with ne nl ro ev show ?thesis by simp
qed

section \<open>The sort stage\<close>

lemma mset_sift: "mset (sift lt x ys) = add_mset x (mset ys)"
  by (induction ys) auto

lemma set_sift: "set (sift lt x ys) = insert x (set ys)"
  by (induction ys) auto

lemma mset_sift_loop: "mset (foldl (\<lambda>acc x. sift lt x acc) acc xs) = mset acc + mset xs"
  by (induction xs arbitrary: acc) (auto simp: mset_sift)

lemma mset_sort_Sort: "mset (sort_Sort lt xs) = mset xs"
  by (simp add: sort_Sort_def mset_sift_loop)

lemma sift_descending:
  fixes key :: "'a \<Rightarrow> 'k::linorder"
  assumes "sorted_wrt (\<lambda>a b. key b \<le> key a) ys"
  shows "sorted_wrt (\<lambda>a b. key b \<le> key a) (sift (\<lambda>a b. key a < key b) x ys)"
  using assms
proof (induction ys)
  case Nil
  show ?case by simp
next
  case (Cons y ys)
  show ?case
  proof (cases "key x < key y")
    case True
    with Cons show ?thesis by (auto simp: set_sift)
  next
    case False
    with Cons.prems show ?thesis by auto
  qed
qed

lemma sift_loop_descending:
  fixes key :: "'a \<Rightarrow> 'k::linorder"
  assumes "sorted_wrt (\<lambda>a b. key b \<le> key a) acc"
  shows "sorted_wrt (\<lambda>a b. key b \<le> key a) (foldl (\<lambda>acc x. sift (\<lambda>a b. key a < key b) x acc) acc xs)"
  using assms by (induction xs arbitrary: acc) (simp_all add: sift_descending)

lemma sort_Sort_sorted:
  fixes key :: "'a \<Rightarrow> 'k::linorder"
  shows "sorted_wrt (\<lambda>a b. key a \<le> key b) (sort_Sort (\<lambda>a b. key a < key b) xs)"
proof -
  have "sorted_wrt (\<lambda>a b. key b \<le> key a) (foldl (\<lambda>acc x. sift (\<lambda>a b. key a < key b) x acc) [] xs)"
    by (rule sift_loop_descending) simp
  then show ?thesis
    by (simp add: sort_Sort_def sorted_wrt_rev)
qed

lemma byName_Less_key: "byName_Less ToLower = (\<lambda>a b. ToLower (name a) < ToLower (name b))"
  by (simp add: byName_Less_def fun_eq_iff)

lemma sort_byName_sorted:
  "sorted_wrt (\<lambda>a b. ToLower (name a) \<le> ToLower (name b)) (sort_Sort (byName_Less ToLower) xs)"
  unfolding byName_Less_key by (rule sort_Sort_sorted)

lemma sort_Sort_post:
  "sort_post (byName_Less ToLower) xs (sort_Sort (byName_Less ToLower) xs)"
proof -
  let ?out = "sort_Sort (byName_Less ToLower) xs"
  have "\<not> byName_Less ToLower (?out ! j) (?out ! i)" if "j < length ?out" "i < j" for i j
  proof -
    from sort_byName_sorted [of ToLower xs] that
    have "ToLower (name (?out ! i)) \<le> ToLower (name (?out ! j))"
      by (simp add: sorted_wrt_iff_nth_less)
    then show ?thesis by (simp add: byName_Less_def)
  qed
  then show ?thesis by (simp add: sort_post_def mset_sort_Sort)
qed

text \<open>
  Claim C8. In name-sort mode every adjacent pair of the sorted sequence is in order of the
  lower-cased names, whatever function \<open>ToLower\<close> is, and the sequence is a permutation of
  the filtered list. The same holds of every sequence that meets the contract of
  \<^verbatim>\<open>sort.Sort\<close> for \<^verbatim>\<open>byName\<close>, whichever algorithm produced it.
\<close>

theorem name_sort_adjacent:
  "(\<forall>i. Suc i < length (sort_stage ToLower False authors) \<longrightarrow>
        ToLower (name (sort_stage ToLower False authors ! i))
          \<le> ToLower (name (sort_stage ToLower False authors ! Suc i))) \<and>
   mset (sort_stage ToLower False authors) = mset authors \<and>
   (\<forall>out. sort_post (byName_Less ToLower) authors out \<longrightarrow>
      (\<forall>i. Suc i < length out \<longrightarrow> ToLower (name (out ! i)) \<le> ToLower (name (out ! Suc i))))"
proof (intro conjI allI impI)
  fix i assume "Suc i < length (sort_stage ToLower False authors)"
  with sort_byName_sorted [of ToLower authors]
  show "ToLower (name (sort_stage ToLower False authors ! i))
          \<le> ToLower (name (sort_stage ToLower False authors ! Suc i))"
    by (simp add: sort_stage_def sorted_wrt_iff_nth_less)
next
  show "mset (sort_stage ToLower False authors) = mset authors"
    by (simp add: sort_stage_def mset_sort_Sort)
next
  fix out i
  assume p: "sort_post (byName_Less ToLower) authors out" and i: "Suc i < length out"
  then have "\<not> byName_Less ToLower (out ! Suc i) (out ! i)"
    by (simp add: sort_post_def)
  then show "ToLower (name (out ! i)) \<le> ToLower (name (out ! Suc i))"
    by (simp add: byName_Less_def)
qed

theorem name_sort_adjacent_witness:
  "map name (sort_stage ascii_lower False
     [author_zero\<lparr>name := ''bob''\<rparr>, author_zero\<lparr>name := ''Alice''\<rparr>,
      author_zero\<lparr>name := ''Zed''\<rparr>, author_zero\<lparr>name := ''carl''\<rparr>])
     = [''Alice'', ''bob'', ''carl'', ''Zed''] \<and>
   Suc 2 < length (sort_stage ascii_lower False
     [author_zero\<lparr>name := ''bob''\<rparr>, author_zero\<lparr>name := ''Alice''\<rparr>,
      author_zero\<lparr>name := ''Zed''\<rparr>, author_zero\<lparr>name := ''carl''\<rparr>]) \<and>
   ascii_lower (name (sort_stage ascii_lower False
     [author_zero\<lparr>name := ''bob''\<rparr>, author_zero\<lparr>name := ''Alice''\<rparr>,
      author_zero\<lparr>name := ''Zed''\<rparr>, author_zero\<lparr>name := ''carl''\<rparr>] ! 2))
   \<le> ascii_lower (name (sort_stage ascii_lower False
     [author_zero\<lparr>name := ''bob''\<rparr>, author_zero\<lparr>name := ''Alice''\<rparr>,
      author_zero\<lparr>name := ''Zed''\<rparr>, author_zero\<lparr>name := ''carl''\<rparr>] ! Suc 2))"
proof -
  let ?L = "[author_zero\<lparr>name := ''bob''\<rparr>, author_zero\<lparr>name := ''Alice''\<rparr>,
      author_zero\<lparr>name := ''Zed''\<rparr>, author_zero\<lparr>name := ''carl''\<rparr>]"
  have ev: "map name (sort_stage ascii_lower False ?L) = [''Alice'', ''bob'', ''carl'', ''Zed'']"
    by (simp add: sort_stage_def sort_Sort_def byName_Less_def ascii_lower_def lower_byte_def)
  have "length (map name (sort_stage ascii_lower False ?L)) = 4"
    by (simp only: ev) simp
  then have len: "Suc 2 < length (sort_stage ascii_lower False ?L)" by simp
  from name_sort_adjacent [of ascii_lower ?L] len
  have "ascii_lower (name (sort_stage ascii_lower False ?L ! 2))
      \<le> ascii_lower (name (sort_stage ascii_lower False ?L ! Suc 2))"
    by blast
  with ev len show ?thesis by (intro conjI)
qed

section \<open>getAuthors: the fields of a roster line\<close>

lemma parse_field_classify:
  "parse_field a f =
     (case classify f of
        Nickname m \<Rightarrow> a\<lparr>nickname := m\<rparr>
      | Email m \<Rightarrow> a\<lparr>emails := emails a @ [m]\<rparr>
      | NamePart \<Rightarrow> a\<lparr>name := (if name a = [] then f else name a @ '' '' @ f)\<rparr>)"
  by (simp add: parse_field_def classify_def split: option.splits)

lemma group_upto_None: "group_upto cls run = None \<longleftrightarrow> cls \<notin> set run"
  by (simp add: group_upto_def)

lemma group_upto_last:
  "cls \<notin> set post \<Longrightarrow> group_upto cls (g @ cls # post) = Some g"
proof -
  assume n: "cls \<notin> set post"
  have "rev (g @ cls # post) = rev post @ cls # rev g" by simp
  moreover have "dropWhile (\<lambda>c. c \<noteq> cls) (rev post @ cls # rev g) = cls # rev g"
    using n by (intro dropWhile_upto) simp
  ultimately show ?thesis by (simp add: group_upto_def)
qed

lemma takeWhile_no_space:
  "\<forall>x \<in> set f. \<not> regex_space x \<Longrightarrow> takeWhile (\<lambda>x. \<not> regex_space x) f = f"
  by (simp add: takeWhile_eq_all_conv)

lemma set_tl_dropWhile: "set (tl (dropWhile P xs)) \<subseteq> set xs"
proof
  fix x assume "x \<in> set (tl (dropWhile P xs))"
  then have "x \<in> set (dropWhile P xs)"
    by (cases "dropWhile P xs") auto
  then show "x \<in> set xs" by (rule set_dropWhileD)
qed

lemma Find_field:
  assumes "\<forall>x \<in> set f. \<not> regex_space x"
  shows "FindStringSubmatch opn cls f = group_upto cls (tl (dropWhile (\<lambda>x. x \<noteq> opn) f))"
  using assms
proof (induction f)
  case Nil
  show ?case by (simp add: group_upto_def)
next
  case (Cons x f)
  then have ns: "\<forall>x \<in> set f. \<not> regex_space x" by simp
  show ?case
  proof (cases "x = opn")
    case False
    with Cons.IH [OF ns] show ?thesis by simp
  next
    case True
    show ?thesis
    proof (cases "group_upto cls f")
      case (Some g)
      with True ns show ?thesis by (simp add: takeWhile_no_space)
    next
      case None
      then have "cls \<notin> set f" by (simp add: group_upto_None)
      with set_tl_dropWhile [of "\<lambda>x. x \<noteq> opn" f]
      have "cls \<notin> set (tl (dropWhile (\<lambda>x. x \<noteq> opn) f))" by auto
      then have "group_upto cls (tl (dropWhile (\<lambda>x. x \<noteq> opn) f)) = None"
        by (simp add: group_upto_None)
      with Cons.IH [OF ns] None True ns show ?thesis
        by (simp add: takeWhile_no_space)
    qed
  qed
qed

lemma Find_field_Some:
  assumes "\<forall>x \<in> set f. \<not> regex_space x"
    and "f = pre @ opn # g @ cls # post" and "opn \<notin> set pre" and "cls \<notin> set post"
  shows "FindStringSubmatch opn cls f = Some g"
proof -
  have "dropWhile (\<lambda>x. x \<noteq> opn) (pre @ opn # g @ cls # post) = opn # g @ cls # post"
    using assms(3) by (rule dropWhile_upto)
  then have "tl (dropWhile (\<lambda>x. x \<noteq> opn) f) = g @ cls # post"
    by (simp add: assms(2))
  with Find_field [OF assms(1), of opn cls] group_upto_last [OF assms(4), of g]
  show ?thesis by simp
qed

lemma Find_field_None:
  assumes "\<forall>x \<in> set f. \<not> regex_space x"
  shows "FindStringSubmatch opn cls f = None \<longleftrightarrow> \<not> has_pair opn cls f"
proof
  assume n: "FindStringSubmatch opn cls f = None"
  show "\<not> has_pair opn cls f"
  proof
    assume "has_pair opn cls f"
    then obtain pre g post where f: "f = pre @ opn # g @ cls # post"
      by (auto simp: has_pair_def)
    then have "opn \<in> set f" by simp
    then obtain p r where pr: "f = p @ opn # r" "opn \<notin> set p"
      by (auto dest: split_list_first)
    have dw: "tl (dropWhile (\<lambda>x. x \<noteq> opn) f) = r"
      using dropWhile_upto [OF pr(2), of r] pr(1) by simp
    have "cls \<in> set r"
    proof -
      from f pr(1) have "p @ opn # r = pre @ opn # g @ cls # post" by simp
      then obtain us where
        "(p = pre @ us \<and> us @ opn # r = opn # g @ cls # post) \<or>
         (p @ us = pre \<and> opn # r = us @ opn # g @ cls # post)"
        by (auto simp: append_eq_append_conv2)
      then show ?thesis
      proof
        assume a: "p = pre @ us \<and> us @ opn # r = opn # g @ cls # post"
        show ?thesis
        proof (cases us)
          case Nil
          with a show ?thesis by simp
        next
          case (Cons u us')
          with a have "u = opn" by simp
          with a Cons have "opn \<in> set p" by simp
          with pr(2) show ?thesis by simp
        qed
      next
        assume b: "p @ us = pre \<and> opn # r = us @ opn # g @ cls # post"
        show ?thesis
        proof (cases us)
          case Nil
          with b show ?thesis by simp
        next
          case (Cons u us')
          with b have "r = us' @ opn # g @ cls # post" by simp
          then show ?thesis by simp
        qed
      qed
    qed
    then have "group_upto cls r \<noteq> None" by (simp add: group_upto_None)
    with Find_field [OF assms, of opn cls] dw n show False
      by simp
  qed
next
  assume np: "\<not> has_pair opn cls f"
  show "FindStringSubmatch opn cls f = None"
  proof (rule ccontr)
    assume "FindStringSubmatch opn cls f \<noteq> None"
    with Find_field [OF assms, of opn cls]
    have c: "cls \<in> set (tl (dropWhile (\<lambda>x. x \<noteq> opn) f))"
      by (simp add: group_upto_None)
    have ne: "dropWhile (\<lambda>x. x \<noteq> opn) f \<noteq> []"
    proof
      assume "dropWhile (\<lambda>x. x \<noteq> opn) f = []"
      then have "tl (dropWhile (\<lambda>x. x \<noteq> opn) f) = []" by (metis list.sel(2))
      with c show False by (metis empty_iff empty_set)
    qed
    then have h: "hd (dropWhile (\<lambda>x. x \<noteq> opn) f) = opn"
      using hd_dropWhile [of "\<lambda>x. x \<noteq> opn" f] by blast
    from c obtain g post where t: "tl (dropWhile (\<lambda>x. x \<noteq> opn) f) = g @ cls # post"
      by (auto dest: split_list)
    from ne h t have "dropWhile (\<lambda>x. x \<noteq> opn) f = opn # g @ cls # post"
      by (cases "dropWhile (\<lambda>x. x \<noteq> opn) f") auto
    then have "f = takeWhile (\<lambda>x. x \<noteq> opn) f @ opn # g @ cls # post"
      by (metis takeWhile_dropWhile_id)
    then have "has_pair opn cls f" unfolding has_pair_def by blast
    with np show False by simp
  qed
qed


lemma regex_space_width: "regex_space c \<Longrightarrow> space_width (c # cs) = 1"
  by (auto simp: regex_space_def space_width_def ascii_space_def)

lemma fields_from_props:
  assumes "\<forall>x \<in> set cur. \<not> regex_space x"
  shows "\<forall>f \<in> set (fields_from cur s). f \<noteq> [] \<and> (\<forall>x \<in> set f. \<not> regex_space x)"
  using assms
proof (induction cur s rule: fields_from.induct)
  case (1 cur)
  then show ?case by simp
next
  case (2 cur c cs)
  show ?case
  proof (cases "space_width (c # cs) = 0")
    case True
    then have "\<not> regex_space c" using regex_space_width [of c cs] by auto
    with "2.prems" have "\<forall>x \<in> set (cur @ [c]). \<not> regex_space x" by simp
    from "2.IH"(1) [OF True this] True show ?thesis by simp
  next
    case False
    have "\<forall>x \<in> set ([]::string). \<not> regex_space x" by simp
    from "2.IH"(2) [OF False this] False "2.prems" show ?thesis by auto
  qed
qed

lemma Fields_props:
  "f \<in> set (Fields line) \<Longrightarrow> f \<noteq> [] \<and> (\<forall>x \<in> set f. \<not> regex_space x)"
  using fields_from_props [of "[]" line] by (simp add: Fields_def)

lemma Join_snoc: "xs \<noteq> [] \<Longrightarrow> Join (xs @ [f]) sep = Join xs sep @ sep @ f"
  by (induction xs sep rule: Join.induct) auto

lemma Join_Nil_iff: "\<forall>x \<in> set xs. x \<noteq> [] \<Longrightarrow> Join xs sep = [] \<longleftrightarrow> xs = []"
  by (induction xs sep rule: Join.induct) auto

lemma name_fields_subset: "set (name_fields fs) \<subseteq> set fs"
  by (auto simp: name_fields_def)

lemma parse_fields:
  assumes "\<forall>f \<in> set fs. f \<noteq> []"
  shows "foldl parse_field author_zero fs =
     author_zero\<lparr>name := Join (name_fields fs) '' '',
                 nickname := (if nicknames fs = [] then [] else last (nicknames fs)),
                 emails := email_fields fs\<rparr>"
  using assms
proof (induction fs rule: rev_induct)
  case Nil
  show ?case by (simp add: name_fields_def nicknames_def email_fields_def author_zero_def)
next
  case (snoc f fs)
  then have IH: "foldl parse_field author_zero fs =
     author_zero\<lparr>name := Join (name_fields fs) '' '',
                 nickname := (if nicknames fs = [] then [] else last (nicknames fs)),
                 emails := email_fields fs\<rparr>"
    by simp
  from snoc.prems have ne: "\<forall>x \<in> set (name_fields fs). x \<noteq> []"
    using name_fields_subset [of fs] by auto
  let ?A = "author_zero\<lparr>name := Join (name_fields fs) '' '',
                 nickname := (if nicknames fs = [] then [] else last (nicknames fs)),
                 emails := email_fields fs\<rparr>"
  have step: "foldl parse_field author_zero (fs @ [f]) = parse_field ?A f"
    by (simp add: IH)
  show ?case
  proof (cases "classify f")
    case (Nickname m)
    then have "name_fields (fs @ [f]) = name_fields fs"
      and "nicknames (fs @ [f]) = nicknames fs @ [m]"
      and "email_fields (fs @ [f]) = email_fields fs"
      by (simp_all add: name_fields_def nicknames_def email_fields_def)
    moreover have "parse_field ?A f = ?A\<lparr>nickname := m\<rparr>"
      using Nickname by (simp add: parse_field_classify)
    ultimately show ?thesis unfolding step by simp
  next
    case (Email m)
    then have "name_fields (fs @ [f]) = name_fields fs"
      and "nicknames (fs @ [f]) = nicknames fs"
      and "email_fields (fs @ [f]) = email_fields fs @ [m]"
      by (simp_all add: name_fields_def nicknames_def email_fields_def)
    moreover have "parse_field ?A f = ?A\<lparr>emails := emails ?A @ [m]\<rparr>"
      using Email by (simp add: parse_field_classify)
    ultimately show ?thesis unfolding step by simp
  next
    case NamePart
    then have nf: "name_fields (fs @ [f]) = name_fields fs @ [f]"
      and nn: "nicknames (fs @ [f]) = nicknames fs"
      and ef: "email_fields (fs @ [f]) = email_fields fs"
      by (simp_all add: name_fields_def nicknames_def email_fields_def)
    have pf: "parse_field ?A f = ?A\<lparr>name := (if name ?A = [] then f else name ?A @ '' '' @ f)\<rparr>"
      using NamePart by (simp add: parse_field_classify)
    show ?thesis
    proof (cases "name_fields fs = []")
      case True
      then show ?thesis unfolding step pf nf nn ef by simp
    next
      case False
      with Join_Nil_iff [OF ne, of "'' ''"] have "Join (name_fields fs) '' '' \<noteq> []" by simp
      with False show ?thesis unfolding step pf nf nn ef by (simp add: Join_snoc)
    qed
  qed
qed

lemma getAuthors_one_line:
  "newline \<notin> set line \<Longrightarrow> getAuthors line = (if skipped line then [] else [parse_line line])"
  by (simp add: getAuthors_def Split_no_sep)

lemma classify_nickname:
  assumes "\<forall>x \<in> set f. \<not> regex_space x"
    and "f = pre @ CHR ''('' # g @ CHR '')'' # post"
    and "CHR ''('' \<notin> set pre" and "CHR '')'' \<notin> set post"
  shows "classify f = Nickname g"
  using Find_field_Some [OF assms] by (simp add: classify_def nicknameRe_def)

lemma classify_email:
  assumes "\<forall>x \<in> set f. \<not> regex_space x"
    and "\<not> has_pair (CHR ''('') (CHR '')'') f"
    and "f = pre @ CHR ''<'' # g @ CHR ''>'' # post"
    and "CHR ''<'' \<notin> set pre" and "CHR ''>'' \<notin> set post"
  shows "classify f = Email g"
  using Find_field_Some [OF assms(1,3,4,5)] Find_field_None [OF assms(1), of "CHR ''(''" "CHR '')''"]
    assms(2)
  by (simp add: classify_def nicknameRe_def emailRe_def)

lemma classify_name:
  assumes "\<forall>x \<in> set f. \<not> regex_space x"
    and "\<not> has_pair (CHR ''('') (CHR '')'') f" and "\<not> has_pair (CHR ''<'') (CHR ''>'') f"
  shows "classify f = NamePart"
  using Find_field_None [OF assms(1), of "CHR ''(''" "CHR '')''"]
    Find_field_None [OF assms(1), of "CHR ''<''" "CHR ''>''"] assms(2,3)
  by (simp add: classify_def nicknameRe_def emailRe_def)

text \<open>
  Claim C6, as amended. A line without line feed that is not skipped gives one contributor,
  made from its fields independently of their position: the name is the name fields
  joined by single spaces in order, the nickname is that of the last nickname field, the
  emails are those of the email fields in order. A field that holds \<open>(\<close> and a later \<open>)\<close>, in
  any place of the field, is a nickname field, with the text between the first \<open>(\<close> and the
  last \<open>)\<close>; otherwise a field that holds \<open><\<close> and a later \<open>>\<close> is an email field, with
  the text between the first \<open><\<close> and the last \<open>>\<close>; every other field is a name field. The
  three cases exclude each other.
\<close>

theorem roster_line_classification:
  assumes "newline \<notin> set line"
  shows "getAuthors line = (if skipped line then [] else [parse_line line]) \<and>
     parse_line line =
       author_zero\<lparr>name := Join (name_fields (Fields line)) '' '',
                   nickname := (if nicknames (Fields line) = [] then []
                                else last (nicknames (Fields line))),
                   emails := email_fields (Fields line)\<rparr> \<and>
     (\<forall>f \<in> set (Fields line).
        (\<forall>pre g post.
           f = pre @ CHR ''('' # g @ CHR '')'' # post \<and>
           CHR ''('' \<notin> set pre \<and> CHR '')'' \<notin> set post \<longrightarrow> classify f = Nickname g) \<and>
        (\<forall>pre g post.
           \<not> has_pair (CHR ''('') (CHR '')'') f \<and>
           f = pre @ CHR ''<'' # g @ CHR ''>'' # post \<and>
           CHR ''<'' \<notin> set pre \<and> CHR ''>'' \<notin> set post \<longrightarrow> classify f = Email g) \<and>
        (\<not> has_pair (CHR ''('') (CHR '')'') f \<and> \<not> has_pair (CHR ''<'') (CHR ''>'') f \<longrightarrow>
           classify f = NamePart))"
proof (intro conjI ballI)
  show "getAuthors line = (if skipped line then [] else [parse_line line])"
    using assms by (rule getAuthors_one_line)
next
  have "\<forall>f \<in> set (Fields line). f \<noteq> []" using Fields_props by blast
  then show "parse_line line =
       author_zero\<lparr>name := Join (name_fields (Fields line)) '' '',
                   nickname := (if nicknames (Fields line) = [] then []
                                else last (nicknames (Fields line))),
                   emails := email_fields (Fields line)\<rparr>"
    unfolding parse_line_def by (rule parse_fields)
next
  fix f assume "f \<in> set (Fields line)"
  then have ns: "\<forall>x \<in> set f. \<not> regex_space x" using Fields_props by blast
  show "\<forall>pre g post.
           f = pre @ CHR ''('' # g @ CHR '')'' # post \<and>
           CHR ''('' \<notin> set pre \<and> CHR '')'' \<notin> set post \<longrightarrow> classify f = Nickname g"
    using classify_nickname [OF ns] by blast
next
  fix f assume "f \<in> set (Fields line)"
  then have ns: "\<forall>x \<in> set f. \<not> regex_space x" using Fields_props by blast
  show "\<forall>pre g post.
           \<not> has_pair (CHR ''('') (CHR '')'') f \<and>
           f = pre @ CHR ''<'' # g @ CHR ''>'' # post \<and>
           CHR ''<'' \<notin> set pre \<and> CHR ''>'' \<notin> set post \<longrightarrow> classify f = Email g"
    using classify_email [OF ns] by blast
next
  fix f assume "f \<in> set (Fields line)"
  then have ns: "\<forall>x \<in> set f. \<not> regex_space x" using Fields_props by blast
  show "\<not> has_pair (CHR ''('') (CHR '')'') f \<and> \<not> has_pair (CHR ''<'') (CHR ''>'') f \<longrightarrow>
           classify f = NamePart"
    using classify_name [OF ns] by blast
qed


lemmas getAuthors_eval = getAuthors_def newline_def parse_line_def Fields_def space_width_def
  ascii_space_def parse_field_def nicknameRe_def emailRe_def group_upto_def regex_space_def
  author_zero_def

text \<open>
  The claim C6 as stated fails: the field \<open>x(y)z\<close> is enclosed neither in parentheses nor in
  angle brackets, yet it is not appended to the name; it sets the nickname \<open>y\<close>.
\<close>

theorem field_not_enclosed_counterexample:
  "\<not> skipped ''Joe x(y)z'' \<and>
   Fields ''Joe x(y)z'' = [''Joe'', ''x(y)z''] \<and>
   \<not> enclosed (CHR ''('') (CHR '')'') ''x(y)z'' \<and>
   \<not> enclosed (CHR ''<'') (CHR ''>'') ''x(y)z'' \<and>
   getAuthors ''Joe x(y)z'' = [author_zero\<lparr>name := ''Joe'', nickname := ''y''\<rparr>]"
  by (simp add: getAuthors_eval enclosed_def)

theorem roster_line_classification_witness:
  "newline \<notin> set ''Joe <j@x.com> (JJ) Smith'' \<and>
   \<not> skipped ''Joe <j@x.com> (JJ) Smith'' \<and>
   getAuthors ''Joe <j@x.com> (JJ) Smith'' =
     [author_zero\<lparr>name := ''Joe Smith'', nickname := ''JJ'', emails := [''j@x.com'']\<rparr>] \<and>
   Fields ''Joe <j@x.com> (JJ) Smith'' = [''Joe'', ''<j@x.com>'', ''(JJ)'', ''Smith''] \<and>
   classify ''(JJ)'' = Nickname ''JJ'' \<and>
   classify ''<j@x.com>'' = Email ''j@x.com'' \<and>
   classify ''Smith'' = NamePart"
proof -
  let ?line = "''Joe <j@x.com> (JJ) Smith''"
  have nl: "newline \<notin> set ?line" by (simp add: newline_def)
  have sk: "\<not> skipped ?line" by simp
  have fs: "Fields ?line = [''Joe'', ''<j@x.com>'', ''(JJ)'', ''Smith'']"
    by (simp add: Fields_def space_width_def ascii_space_def)
  note t = roster_line_classification [OF nl]
  from t [THEN conjunct1] sk have ga: "getAuthors ?line = [parse_line ?line]" by simp
  have pl: "parse_line ?line =
      author_zero\<lparr>name := ''Joe Smith'', nickname := ''JJ'', emails := [''j@x.com'']\<rparr>"
    by (simp add: getAuthors_eval)
  note B = t [THEN conjunct2, THEN conjunct2]
  have m1: "''(JJ)'' \<in> set (Fields ?line)" unfolding fs by simp
  have m2: "''<j@x.com>'' \<in> set (Fields ?line)" unfolding fs by simp
  note f1 = B [THEN bspec, OF m1, THEN conjunct1]
  have c1: "classify ''(JJ)'' = Nickname ''JJ''"
    using f1 [rule_format, of "[]" "''JJ''" "[]"] by simp
  have np: "\<not> has_pair (CHR ''('') (CHR '')'') ''<j@x.com>''"
    by (auto simp: has_pair_def Cons_eq_append_conv append_eq_Cons_conv)
  note f2 = B [THEN bspec, OF m2, THEN conjunct2, THEN conjunct1]
  have c2: "classify ''<j@x.com>'' = Email ''j@x.com''"
    using f2 [rule_format, of "[]" "''j@x.com''" "[]"] np by simp
  have c3: "classify ''Smith'' = NamePart"
    by (simp add: classify_def nicknameRe_def emailRe_def group_upto_def regex_space_def)
  from nl sk ga pl fs c1 c2 c3 show ?thesis by simp
qed

section \<open>getContributions: the rank\<close>

lemma two_powr_eps: "(2::real) powr (1 / 2 ^ 47) \<le> 1 + 1 / 2 ^ 46"
proof -
  let ?e = "1 / 2 ^ 47 :: real"
  let ?y = "?e * ln 2"
  have l0: "0 \<le> ln (2::real)" by simp
  have l1: "ln (2::real) \<le> 1" using ln_2_less_1 by simp
  have y0: "0 \<le> ?y" using l0 by simp
  have ye: "?y \<le> ?e" using l1 by (simp add: mult_left_le)
  have y1: "?y \<le> 1" using ye by simp
  have "?y\<^sup>2 \<le> ?y" using y0 y1 by (simp add: power2_eq_square mult_left_le)
  moreover have "exp ?y \<le> 1 + ?y + ?y\<^sup>2" using y0 y1 by (rule exp_bound)
  ultimately have "exp ?y \<le> 1 + 2 * ?e" using ye by linarith
  moreover have "(2::real) powr ?e = exp ?y" by (simp add: powr_def)
  ultimately show ?thesis by simp
qed

lemma floor_flog:
  fixes c :: int
  assumes acc: "accurate_Log2 flog" and c1: "1 \<le> c" and c2: "c < 2 ^ 46"
  shows "\<lfloor>flog (real_of_int c)\<rfloor> = \<lfloor>log 2 (real_of_int c)\<rfloor> \<and> 0 \<le> flog (real_of_int c)
         \<and> flog (real_of_int c) < 46"
proof -
  define n where "n = nat c"
  define x where "x = real_of_int c"
  define m where "m = nat \<lfloor>log 2 x\<rfloor>"
  let ?e = "1 / 2 ^ 47 :: real"
  let ?E = "(2::real) powr ?e"
  have xn: "x = real n" using c1 by (simp add: x_def n_def)
  have n0: "0 < n" using c1 by (simp add: n_def)
  have x1: "1 \<le> x" using c1 by (simp add: x_def)
  have x2: "x < 2 ^ 46" using c2 unfolding x_def by simp
  have "0 \<le> log 2 x" using x1 by simp
  then have fl: "\<lfloor>log 2 (real n)\<rfloor> = int m" by (simp add: m_def xn)
  have "\<lfloor>log (real (2::nat)) (real n)\<rfloor> = int m" using fl by simp
  then have b: "2 ^ m \<le> n \<and> n < 2 ^ (m + 1)"
    using floor_log_nat_eq_powr_iff [of 2 n m] n0 by simp
  then have "real (2 ^ m) \<le> real n" and "real n < real (2 ^ (m + 1))"
    by (simp_all only: of_nat_le_iff of_nat_less_iff)
  then have lo: "(2::real) ^ m \<le> x" and hi: "x < 2 ^ (m + 1)"
    unfolding xn by simp_all
  from lo x2 have "(2::real) ^ m < 2 ^ 46" by (rule le_less_trans)
  then have m46: "m < 46" by (rule power_less_imp_less_exp [rotated]) simp
  have E1: "1 \<le> ?E" by (rule ge_one_powr_ge_zero) simp_all
  have E2: "?E \<le> 1 + 1 / 2 ^ 46" by (rule two_powr_eps)
  have pm: "(2::real) ^ m / 2 ^ 46 \<le> 1 / 2" 
  proof -
    have "(2::real) ^ m \<le> 2 ^ 45" using m46 by (intro power_increasing) simp_all
    then show ?thesis by simp
  qed
  have floors: "\<lfloor>log 2 x\<rfloor> = int m" using fl xn by simp
  show ?thesis
  proof (cases "n = 2 ^ m")
    case True
    then have "x = 2 ^ m" using xn by simp
    with acc have "flog x = real m" by (simp add: accurate_Log2_def)
    with floors m46 show ?thesis unfolding x_def by simp
  next
    case False
    with b have "2 ^ m + 1 \<le> n" and "n + 1 \<le> 2 ^ (m + 1)" by simp_all
    then have "real (2 ^ m + 1) \<le> real n" and "real (n + 1) \<le> real (2 ^ (m + 1))"
      by (simp_all only: of_nat_le_iff)
    then have lo': "(2::real) ^ m + 1 \<le> x" and hi': "x + 1 \<le> 2 ^ (m + 1)"
      unfolding xn by simp_all
    have close: "\<bar>flog x - log 2 x\<bar> \<le> ?e"
      using acc x1 x2 by (simp add: accurate_Log2_def)
    have "2 powr (real m + ?e) = 2 ^ m * ?E"
      by (simp add: powr_add powr_realpow)
    also have "\<dots> \<le> 2 ^ m * (1 + 1 / 2 ^ 46)"
      using E2 by (intro mult_left_mono) simp_all
    also have "\<dots> = 2 ^ m + 2 ^ m / 2 ^ 46" by (simp add: algebra_simps)
    also have "\<dots> \<le> x" using pm lo' by linarith
    finally have "2 powr (real m + ?e) \<le> x" .
    then have low: "real m + ?e \<le> log 2 x"
      using x1 by (subst le_log_iff) simp_all
    have "x * ?E \<le> x * (1 + 1 / 2 ^ 46)"
      using E2 x1 by (intro mult_left_mono) simp_all
    also have "\<dots> = x + x / 2 ^ 46" by (simp add: algebra_simps)
    also have "\<dots> < x + 1" using x2 by simp
    also have "\<dots> \<le> 2 ^ (m + 1)" by (rule hi')
    finally have "x * ?E < 2 ^ (m + 1)" .
    then have "x < 2 ^ (m + 1) / ?E"
      by (simp add: pos_less_divide_eq)
    also have "2 ^ (m + 1) / ?E = 2 powr (real (m + 1) - ?e)"
    proof -
      have "(2::real) powr (real (m + 1) - ?e) = 2 powr real (m + 1) / ?E"
        by (rule powr_diff)
      moreover have "(2::real) powr real (m + 1) = 2 ^ (m + 1)"
        by (rule powr_realpow) simp
      ultimately show ?thesis by (simp only:)
    qed
    finally have "log 2 x < real (m + 1) - ?e"
      using x1 by (subst log_less_iff) simp_all
    then have up: "log 2 x + ?e < real m + 1" by simp
    from close have "log 2 x - ?e \<le> flog x" and "flog x \<le> log 2 x + ?e"
      by (simp_all only: abs_le_iff) linarith+
    with low up have "real m \<le> flog x" and "flog x < real m + 1"
      by linarith+
    then have "\<lfloor>flog x\<rfloor> = int m" and "0 \<le> flog x" and "flog x < 46"
      using m46 by (simp_all add: floor_unique) 
    with floors show ?thesis unfolding x_def by simp
  qed
qed

lemma geekrank_of_zero: "geekrank_of flog impl 0 = impl NegInf"
  by (simp add: geekrank_of_def math_Log2_def float64_of_int_def int_of_float64_def)

lemma geekrank_of_pos:
  assumes "accurate_Log2 flog" and "1 \<le> c" and "c < 2 ^ 46"
  shows "geekrank_of flog impl c = \<lfloor>log 2 (real_of_int c)\<rfloor>"
proof -
  from floor_flog [OF assms] have
    fl: "\<lfloor>flog (real_of_int c)\<rfloor> = \<lfloor>log 2 (real_of_int c)\<rfloor>"
    and f0: "0 \<le> flog (real_of_int c)" and f46: "flog (real_of_int c) < 46"
    by simp_all
  from f0 have t: "trunc (flog (real_of_int c)) = \<lfloor>flog (real_of_int c)\<rfloor>"
    by (simp add: trunc_def)
  from f0 have lo: "0 \<le> \<lfloor>flog (real_of_int c)\<rfloor>" by simp
  from f46 have hi: "\<lfloor>flog (real_of_int c)\<rfloor> < 46" by (simp add: floor_less_iff)
  from assms(2) have "math_Log2 flog (float64_of_int c) = Finite (flog (real_of_int c))"
    by (simp add: math_Log2_def float64_of_int_def)
  then have "geekrank_of flog impl c = \<lfloor>flog (real_of_int c)\<rfloor>"
    using t lo hi by (simp add: geekrank_of_def int_of_float64_def)
  with fl show ?thesis by simp
qed

text \<open>
  Claim C4, as amended. After counting, the rank of every contributor is the conversion to
  \<^verbatim>\<open>int\<close> of the float64 logarithm of its commits. For commits from 1 to below \<open>2 ^ 46\<close> that
  is \<open>floor (log2 commits)\<close>, given a library logarithm as accurate as \<open>accurate_Log2\<close> asks.
  For \<open>commits = 0\<close> the logarithm is \<open>-Inf\<close> and the rank is whatever the implementation
  converts \<open>-Inf\<close> to: the code sets no sentinel.
\<close>

theorem geekrank_after_counting:
  assumes "accurate_Log2 flog" and "i < length authors"
  shows "geekrank (getContributions (geekrank_of flog impl) authors out ! i) =
           geekrank_of flog impl (commits (getContributions (geekrank_of flog impl) authors out ! i)) \<and>
         (commits (getContributions (geekrank_of flog impl) authors out ! i) = 0 \<longrightarrow>
            math_Log2 flog (float64_of_int 0) = NegInf \<and>
            geekrank (getContributions (geekrank_of flog impl) authors out ! i) = impl NegInf) \<and>
         (1 \<le> commits (getContributions (geekrank_of flog impl) authors out ! i) \<and>
          commits (getContributions (geekrank_of flog impl) authors out ! i) < 2 ^ 46 \<longrightarrow>
            geekrank (getContributions (geekrank_of flog impl) authors out ! i) =
              \<lfloor>log 2 (real_of_int
                 (commits (getContributions (geekrank_of flog impl) authors out ! i)))\<rfloor>)"
proof -
  let ?R = "getContributions (geekrank_of flog impl) authors out"
  have g: "geekrank (?R ! i) = geekrank_of flog impl (commits (?R ! i))"
    using assms(2) by (simp add: getContributions_nth)
  have z: "math_Log2 flog (float64_of_int 0) = NegInf"
    by (simp add: math_Log2_def float64_of_int_def)
  show ?thesis
    using g z geekrank_of_zero [of flog impl] geekrank_of_pos [OF assms(1), of "commits (?R ! i)" impl]
    by simp
qed

lemma accurate_log2: "accurate_Log2 (log 2)"
  by (simp add: accurate_Log2_def log_pow_cancel)

lemma contributions_Bob_Carol:
  "getContributions log2
     [author_zero\<lparr>name := ''Bob'', emails := [''b@x'']\<rparr>, author_zero\<lparr>name := ''Carol''\<rparr>]
     ''b@x\<newline>b@x\<newline>b@x''
   = [author_zero\<lparr>name := ''Bob'', emails := [''b@x''], commits := 3, geekrank := log2 3\<rparr>,
      author_zero\<lparr>name := ''Carol'', geekrank := log2 0\<rparr>]"
  by (simp add: getContributions_eval author_zero_def)

text \<open>
  The claim C4 as stated fails in its second half: for a contributor with no commits the
  logarithm is \<open>-Inf\<close>, and the rank is the conversion of \<open>-Inf\<close>, on amd64 the smallest \<^verbatim>\<open>int\<close>.
\<close>

theorem geekrank_zero_commits_counterexample:
  "commits (getContributions (geekrank_of (log 2) convert_amd64)
     [author_zero\<lparr>name := ''Bob'', emails := [''b@x'']\<rparr>, author_zero\<lparr>name := ''Carol''\<rparr>]
     ''b@x\<newline>b@x\<newline>b@x'' ! 1) = 0 \<and>
   math_Log2 (log 2) (float64_of_int 0) = NegInf \<and>
   geekrank (getContributions (geekrank_of (log 2) convert_amd64)
     [author_zero\<lparr>name := ''Bob'', emails := [''b@x'']\<rparr>, author_zero\<lparr>name := ''Carol''\<rparr>]
     ''b@x\<newline>b@x\<newline>b@x'' ! 1) = convert_amd64 NegInf \<and>
   convert_amd64 NegInf = - 9223372036854775808"
proof -
  have z: "math_Log2 (log 2) (float64_of_int 0) = NegInf"
    by (simp add: math_Log2_def float64_of_int_def)
  have v: "convert_amd64 NegInf = - 9223372036854775808"
    by (simp add: convert_amd64_def)
  have c: "commits (author_zero\<lparr>name := ''Carol'',
      geekrank := geekrank_of (log 2) convert_amd64 0\<rparr>) = 0"
    by (simp add: author_zero_def)
  show ?thesis
    unfolding contributions_Bob_Carol using z v c by (simp add: geekrank_of_zero)
qed

theorem geekrank_after_counting_witness:
  "accurate_Log2 (log 2) \<and>
   0 < length [author_zero\<lparr>name := ''Bob'', emails := [''b@x'']\<rparr>, author_zero\<lparr>name := ''Carol''\<rparr>] \<and>
   commits (getContributions (geekrank_of (log 2) convert_amd64)
     [author_zero\<lparr>name := ''Bob'', emails := [''b@x'']\<rparr>, author_zero\<lparr>name := ''Carol''\<rparr>]
     ''b@x\<newline>b@x\<newline>b@x'' ! 0) = 3 \<and>
   geekrank (getContributions (geekrank_of (log 2) convert_amd64)
     [author_zero\<lparr>name := ''Bob'', emails := [''b@x'']\<rparr>, author_zero\<lparr>name := ''Carol''\<rparr>]
     ''b@x\<newline>b@x\<newline>b@x'' ! 0) = 1"
proof -
  let ?A = "[author_zero\<lparr>name := ''Bob'', emails := [''b@x'']\<rparr>, author_zero\<lparr>name := ''Carol''\<rparr>]"
  let ?R = "getContributions (geekrank_of (log 2) convert_amd64) ?A ''b@x\<newline>b@x\<newline>b@x''"
  have i: "0 < length ?A" by simp
  have c: "commits (?R ! 0) = 3" by (simp add: contributions_Bob_Carol)
  have "\<lfloor>log (real (2::nat)) (real (3::nat))\<rfloor> = int 1"
    by (rule floor_log_nat_eq_if) simp_all
  then have fl: "\<lfloor>log 2 (real_of_int 3)\<rfloor> = 1" by simp
  from geekrank_after_counting [OF accurate_log2 i, of convert_amd64 "''b@x\<newline>b@x\<newline>b@x''"]
  have "1 \<le> commits (?R ! 0) \<and> commits (?R ! 0) < 2 ^ 46 \<longrightarrow>
      geekrank (?R ! 0) = \<lfloor>log 2 (real_of_int (commits (?R ! 0)))\<rfloor>"
    by blast
  with c fl have "geekrank (?R ! 0) = 1" by simp
  with accurate_log2 i c show ?thesis by (intro conjI)
qed

end
